theory Spec2Isabelle
  imports Main "HOL-Library.Word"
begin

unbundle bit_operations_syntax

chapter \<open>Definitions\<close>

section \<open>Go standard library functions called by the sources\<close>

text \<open>
  Go strings are byte sequences: \<open>string\<close> (a \<open>char list\<close>) here. The sources only
  ever split and join on the one-byte separator \<open>"/"\<close>, so the separator of
  \<open>strings.Split\<close> is a single \<open>char\<close>.

  \<open>strings.Split(s, sep)\<close>: find the first separator, cut the text before it off as one
  component, continue behind the separator; the text after the last separator (all of
  \<open>s\<close> when there is none, also when \<open>s\<close> is empty) is the last component.
\<close>

function strings_Split :: "string \<Rightarrow> char \<Rightarrow> string list" where
  "strings_Split s sep =
     (case dropWhile (\<lambda>c. c \<noteq> sep) s of
        [] \<Rightarrow> [s]
      | _ # rest \<Rightarrow> takeWhile (\<lambda>c. c \<noteq> sep) s # strings_Split rest sep)"
  by pat_completeness auto
termination
proof (relation "measure (\<lambda>(s, sep). length s)")
  show "wf (measure (\<lambda>(s, sep). length s))" by simp
next
  fix s :: string and sep :: char and x rest
  assume "dropWhile (\<lambda>c. c \<noteq> sep) s = x # rest"
  then have "length (x # rest) \<le> length s"
    by (metis length_dropWhile_le)
  then show "((rest, sep), (s, sep)) \<in> measure (\<lambda>(s, sep). length s)"
    by simp
qed

declare strings_Split.simps [simp del]

text \<open>\<open>strings.Join(elems, sep)\<close>: the elements with \<open>sep\<close> between neighbours.\<close>

fun strings_Join :: "string list \<Rightarrow> string \<Rightarrow> string" where
  "strings_Join [] sep = []"
| "strings_Join [x] sep = x"
| "strings_Join (x # y # ys) sep = x @ sep @ strings_Join (y # ys) sep"

text \<open>
  \<open>path.Clean\<close>, element by element as its documentation states it: empty elements
  (multiple slashes) and \<open>.\<close> elements are dropped; a \<open>..\<close> element removes the
  element before it when that is not itself \<open>..\<close>, is dropped at the root of a rooted
  path, and is kept at the start of an unrooted one. \<open>clean_elems\<close> keeps the elements
  written so far in reverse (last written first).
\<close>

fun clean_elems :: "bool \<Rightarrow> string list \<Rightarrow> string list \<Rightarrow> string list" where
  "clean_elems rooted [] out = rev out"
| "clean_elems rooted (e # es) out =
     (if e = [] \<or> e = ''.'' then clean_elems rooted es out
      else if e = ''..'' then
        (case out of
           [] \<Rightarrow> if rooted then clean_elems rooted es [] else clean_elems rooted es [''..'']
         | t # ts \<Rightarrow>
             if t = ''..'' then clean_elems rooted es (''..'' # out)
             else clean_elems rooted es ts)
      else clean_elems rooted es (e # out))"

definition path_Clean :: "string \<Rightarrow> string" where
  "path_Clean p =
     (if p = [] then ''.''
      else
        let rooted = (hd p = CHR ''/'');
            out = (if rooted then ''/'' else []) @
                  strings_Join (clean_elems rooted (strings_Split p (CHR ''/'')) []) ''/''
        in if out = [] then ''.'' else out)"

text \<open>
  \<open>path.Join(elem...)\<close>: the empty string when every element is empty; otherwise the
  elements from the first non-empty one on, joined with slashes and cleaned.
\<close>

definition path_Join :: "string list \<Rightarrow> string" where
  "path_Join elem =
     (if concat elem = [] then []
      else path_Clean (strings_Join (dropWhile (\<lambda>e. e = []) elem) ''/''))"

section \<open>DefaultLayout\<close>

type_synonym DatasetID = string
type_synonym SnapshotID = string

definition defaultDatasetsDir :: string where "defaultDatasetsDir = ''datasets''"
definition defaultSnapshotsDir :: string where "defaultSnapshotsDir = ''snapshots''"
definition defaultManifestFile :: string where "defaultManifestFile = ''manifest.json''"
definition defaultDataDir :: string where "defaultDataDir = ''data''"

definition DatasetsPrefix :: string where
  "DatasetsPrefix = defaultDatasetsDir @ ''/''"

definition SegmentsPrefix :: "DatasetID \<Rightarrow> string" where
  "SegmentsPrefix dataset =
     path_Join [defaultDatasetsDir, dataset, defaultSnapshotsDir] @ ''/''"

definition ManifestPath :: "DatasetID \<Rightarrow> SnapshotID \<Rightarrow> string" where
  "ManifestPath dataset segment =
     path_Join [defaultDatasetsDir, dataset, defaultSnapshotsDir, segment, defaultManifestFile]"

text \<open>The indexed reads \<open>parts[0..4]\<close> happen only behind the length check.\<close>

definition isValidManifestPath :: "string \<Rightarrow> bool" where
  "isValidManifestPath p =
     (let parts = strings_Split p (CHR ''/'') in
      if length parts \<noteq> 5 then False
      else parts ! 0 = defaultDatasetsDir \<and>
           parts ! 1 \<noteq> [] \<and>
           parts ! 2 = defaultSnapshotsDir \<and>
           parts ! 3 \<noteq> [] \<and>
           parts ! 4 = defaultManifestFile)"

definition IsManifest :: "string \<Rightarrow> bool" where
  "IsManifest p = isValidManifestPath p"

definition ParseDatasetID :: "string \<Rightarrow> DatasetID" where
  "ParseDatasetID manifestPath =
     (if \<not> isValidManifestPath manifestPath then []
      else strings_Split manifestPath (CHR ''/'') ! 1)"

definition ParseSegmentID :: "string \<Rightarrow> SnapshotID" where
  "ParseSegmentID manifestPath =
     (if \<not> isValidManifestPath manifestPath then []
      else strings_Split manifestPath (CHR ''/'') ! 3)"

text \<open>
  The loop of \<open>ExtractPartitionPath\<close> that looks for the first component equal to
  \<open>"data"\<close>: \<open>dataIdx\<close> stays \<open>-1\<close> when there is none.
\<close>

fun dataIdx_loop :: "string list \<Rightarrow> int \<Rightarrow> int" where
  "dataIdx_loop [] i = -1"
| "dataIdx_loop (p # ps) i = (if p = defaultDataDir then i else dataIdx_loop ps (i + 1))"

text \<open>
  The slice \<open>parts[dataIdx+1 : len(parts)-1]\<close> is taken only when
  \<open>0 \<le> dataIdx < len(parts)-1\<close>, where its bounds are in range.
\<close>

definition ExtractPartitionPath :: "string \<Rightarrow> string" where
  "ExtractPartitionPath filePath =
     (let parts = strings_Split filePath (CHR ''/'');
          dataIdx = dataIdx_loop parts 0
      in if dataIdx < 0 \<or> dataIdx \<ge> int (length parts) - 1 then []
         else
           let partParts = drop (nat (dataIdx + 1)) (take (length parts - 1) parts)
           in if length partParts = 0 then [] else strings_Join partParts ''/'')"

text \<open>
  The data model of the specification: a dataset or snapshot ID is valid when it is a
  non-empty string with no path separator and no leading or trailing whitespace.
\<close>

definition isSpace :: "char \<Rightarrow> bool" where
  "isSpace c = (c \<in> set [CHR '' '', CHR 0x09, CHR 0x0A, CHR 0x0B, CHR 0x0C, CHR 0x0D])"

definition valid_id :: "string \<Rightarrow> bool" where
  "valid_id x =
     (x \<noteq> [] \<and> CHR ''/'' \<notin> set x \<and> \<not> isSpace (hd x) \<and> \<not> isSpace (last x))"

section \<open>Errors\<close>

text \<open>
  The error values of the sources. \<open>ErrManifestInvalid\<close> and \<open>ErrRangeReadNotSupported\<close>
  are the sentinels made with \<open>errors.New\<close>; \<open>ManifestValidationError\<close> is the struct
  with \<open>Field\<close> and \<open>Message\<close>; \<open>StoreError\<close> stands for whatever error an underlying
  store returns.
\<close>

record ManifestValidationError =
  Field :: string
  Message :: string

datatype error =
    ErrManifestInvalid
  | ErrRangeReadNotSupported
  | ValidationError ManifestValidationError
  | StoreError string

text \<open>
  \<open>(*ManifestValidationError).Unwrap\<close> returns the sentinel; the sentinels, being
  \<open>errors.New\<close> values, have no \<open>Unwrap\<close> method, and neither do store errors here.
\<close>

fun Unwrap :: "error \<Rightarrow> error option" where
  "Unwrap (ValidationError e) = Some ErrManifestInvalid"
| "Unwrap ErrManifestInvalid = None"
| "Unwrap ErrRangeReadNotSupported = None"
| "Unwrap (StoreError s) = None"

text \<open>The length of the \<open>Unwrap\<close> chain below an error: what \<open>errors.Is\<close> walks down.\<close>

fun chain_depth :: "error \<Rightarrow> nat" where
  "chain_depth (ValidationError e) = 1"
| "chain_depth ErrManifestInvalid = 0"
| "chain_depth ErrRangeReadNotSupported = 0"
| "chain_depth (StoreError s) = 0"

text \<open>
  \<open>errors.Is(err, target)\<close>: compare, unwrap, repeat until the chain ends.
\<close>

function errors_Is :: "error \<Rightarrow> error \<Rightarrow> bool" where
  "errors_Is err target =
     (if err = target then True
      else (case Unwrap err of None \<Rightarrow> False | Some err' \<Rightarrow> errors_Is err' target))"
  by pat_completeness auto
termination
proof (relation "measure (\<lambda>(err, target). chain_depth err)")
  show "wf (measure (\<lambda>(err, target). chain_depth err))" by simp
next
  fix err target err' :: error
  assume "Unwrap err = Some err'"
  then have "chain_depth err' < chain_depth err"
    by (cases err) auto
  then show "((err', target), (err, target)) \<in> measure (\<lambda>(err, target). chain_depth err)"
    by simp
qed

declare errors_Is.simps [simp del]

text \<open>
  \<open>errors.As(err, &valErr)\<close> with \<open>valErr\<close> of type \<open>*ManifestValidationError\<close>: the first
  error of the chain that is one, if any.
\<close>

function errors_As_ManifestValidationError :: "error \<Rightarrow> ManifestValidationError option" where
  "errors_As_ManifestValidationError err =
     (case err of
        ValidationError v \<Rightarrow> Some v
      | _ \<Rightarrow> (case Unwrap err of
                None \<Rightarrow> None
              | Some err' \<Rightarrow> errors_As_ManifestValidationError err'))"
  by pat_completeness auto
termination
proof (relation "measure chain_depth")
  show "wf (measure chain_depth)" by simp
qed simp_all

declare errors_As_ManifestValidationError.simps [simp del]

section \<open>Manifest validation\<close>

text \<open>
  \<open>fmt.Sprintf("%d", i)\<close> for an index \<open>i \<ge> 0\<close>: its decimal digits. \<open>digit\<close> is
  only applied to numbers below ten.
\<close>

definition digit :: "nat \<Rightarrow> char" where
  "digit n = ''0123456789'' ! n"

function itoa :: "nat \<Rightarrow> string" where
  "itoa n = (if n < 10 then [digit n] else itoa (n div 10) @ [digit (n mod 10)])"
  by pat_completeness auto
termination
  by (relation "measure id") auto

declare itoa.simps [simp del]

text \<open>
  \<open>time.Time\<close>, reduced to what \<open>IsZero\<close> reads: the seconds since January 1, year 1,
  00:00:00 UTC and the nanoseconds within the second.
\<close>

record Time =
  sec :: int
  nsec :: int

definition IsZero :: "Time \<Rightarrow> bool" where
  "IsZero t = (sec t = 0 \<and> nsec t = 0)"

text \<open>
  \<open>lode.FileRef\<close> and \<open>lode.Manifest\<close> with the fields the sources and their tests use.
  The sizes and counts are \<open>int64\<close>. A nil map, a nil slice and a nil pointer are
  \<open>None\<close>; an empty map or slice is \<open>Some\<close> of the empty one.
\<close>

record FileRef =
  Path :: string
  SizeBytes :: "64 word"
  Checksum :: string

record Manifest =
  SchemaName :: string
  FormatVersion :: string
  DatasetID :: string
  SnapshotID :: string
  ParentSnapshotID :: string
  CreatedAt :: Time
  Metadata :: "(string \<rightharpoonup> string) option"
  Files :: "FileRef list option"
  RowCount :: "64 word"
  MinTimestamp :: "Time option"
  MaxTimestamp :: "Time option"
  Codec :: string
  Compressor :: string
  Partitioner :: string

text \<open>The loop over \<open>m.Files\<close> at the end of \<open>ValidateManifest\<close>; \<open>i\<close> is the index.\<close>

fun validate_files :: "FileRef list \<Rightarrow> nat \<Rightarrow> error option" where
  "validate_files [] i = None"
| "validate_files (f # fs) i =
     (if Path f = [] then
        Some (ValidationError \<lparr>Field = ''files['' @ itoa i @ ''].path'',
                               Message = ''is required''\<rparr>)
      else if sint (SizeBytes f) < 0 then
        Some (ValidationError \<lparr>Field = ''files['' @ itoa i @ ''].size_bytes'',
                               Message = ''must be non-negative''\<rparr>)
      else validate_files fs (i + 1))"

definition ValidateManifest :: "Manifest option \<Rightarrow> error option" where
  "ValidateManifest mp =
     (case mp of
        None \<Rightarrow> Some (ValidationError \<lparr>Field = ''manifest'', Message = ''is nil''\<rparr>)
      | Some m \<Rightarrow>
          if SchemaName m = [] then
            Some (ValidationError \<lparr>Field = ''schema_name'', Message = ''is required''\<rparr>)
          else if FormatVersion m = [] then
            Some (ValidationError \<lparr>Field = ''format_version'', Message = ''is required''\<rparr>)
          else if DatasetID m = [] then
            Some (ValidationError \<lparr>Field = ''dataset_id'', Message = ''is required''\<rparr>)
          else if SnapshotID m = [] then
            Some (ValidationError \<lparr>Field = ''snapshot_id'', Message = ''is required''\<rparr>)
          else if IsZero (CreatedAt m) then
            Some (ValidationError \<lparr>Field = ''created_at'', Message = ''is required''\<rparr>)
          else if Metadata m = None then
            Some (ValidationError \<lparr>Field = ''metadata'',
              Message = ''must not be nil (use empty map for no metadata)''\<rparr>)
          else if Files m = None then
            Some (ValidationError \<lparr>Field = ''files'',
              Message = ''must not be nil (use empty slice for no files)''\<rparr>)
          else if sint (RowCount m) < 0 then
            Some (ValidationError \<lparr>Field = ''row_count'', Message = ''must be non-negative''\<rparr>)
          else if Codec m = [] then
            Some (ValidationError \<lparr>Field = ''codec'', Message = ''is required''\<rparr>)
          else if Compressor m = [] then
            Some (ValidationError \<lparr>Field = ''compressor'', Message = ''is required''\<rparr>)
          else if Partitioner m = [] then
            Some (ValidationError \<lparr>Field = ''partitioner'', Message = ''is required''\<rparr>)
          else (case Files m of None \<Rightarrow> None | Some fs \<Rightarrow> validate_files fs 0))"

text \<open>
  The validator as the specification words it: the required checks in their order, each
  with the canonical JSON name of its field and whether it passes; the first check that
  fails names the field of the error.
\<close>

fun spec_file_checks :: "FileRef list \<Rightarrow> nat \<Rightarrow> (string \<times> bool) list" where
  "spec_file_checks [] i = []"
| "spec_file_checks (f # fs) i =
     (''files['' @ itoa i @ ''].path'', Path f \<noteq> []) #
     (''files['' @ itoa i @ ''].size_bytes'', 0 \<le> sint (SizeBytes f)) #
     spec_file_checks fs (i + 1)"

definition spec_checks :: "Manifest option \<Rightarrow> (string \<times> bool) list" where
  "spec_checks mp =
     (''manifest'', mp \<noteq> None) #
     (case mp of
        None \<Rightarrow> []
      | Some m \<Rightarrow>
          [(''schema_name'', SchemaName m \<noteq> []),
           (''format_version'', FormatVersion m \<noteq> []),
           (''dataset_id'', DatasetID m \<noteq> []),
           (''snapshot_id'', SnapshotID m \<noteq> []),
           (''created_at'', \<not> IsZero (CreatedAt m)),
           (''metadata'', Metadata m \<noteq> None),
           (''files'', Files m \<noteq> None),
           (''row_count'', 0 \<le> sint (RowCount m)),
           (''codec'', Codec m \<noteq> []),
           (''compressor'', Compressor m \<noteq> []),
           (''partitioner'', Partitioner m \<noteq> [])] @
          (case Files m of None \<Rightarrow> [] | Some fs \<Rightarrow> spec_file_checks fs 0))"

definition first_failure :: "(string \<times> bool) list \<Rightarrow> string option" where
  "first_failure checks = map_option fst (find (\<lambda>c. \<not> snd c) checks)"

section \<open>Iterators\<close>

text \<open>
  \<open>SegmentRef\<close> and \<open>ObjectRef\<close> as \<open>iterator.go\<close> and its tests build them:
  \<open>SegmentRef{ID: ...}\<close> and \<open>ObjectRef{Dataset: ..., Segment: ..., Path: ...}\<close>.
\<close>

type_synonym ObjectKey = string

record SegmentRef =
  ID :: SnapshotID

record ObjectRef =
  Dataset :: DatasetID
  Segment :: SegmentRef
  Path :: string

text \<open>The zero value \<open>ObjectRef{}\<close>.\<close>

definition zero_ObjectRef :: ObjectRef where
  "zero_ObjectRef = \<lparr>Dataset = [], Segment = \<lparr>ID = []\<rparr>, Path = []\<rparr>"

text \<open>A slice read out of range panics; the methods return the panic as a value.\<close>

datatype panic = IndexOutOfRange

text \<open>
  \<open>SegmentFileIterator\<close>. A nil slice has length 0, as the empty list. \<open>index\<close> is a Go
  \<open>int\<close>: a signed machine integer, 32 bits wide on some targets and 64 bits on others.
  The record leaves the type \<open>'i\<close> of the index open and the methods take it to be a
  word of any width \<open>'w\<close>: \<open>index++\<close> wraps around from the largest \<open>int\<close> to the
  smallest, and \<open>sint\<close> reads the word as the signed number it stands for. \<open>len(it.files)\<close>
  is a non-negative \<open>int\<close> and is compared with the index as a number.
\<close>

record 'i SegmentFileIterator =
  dataset :: DatasetID
  segment :: SegmentRef
  files :: "FileRef list"
  index :: 'i
  current :: ObjectRef
  err :: "error option"
  closed :: bool

definition NewSegmentFileIterator ::
    "DatasetID \<Rightarrow> SegmentRef \<Rightarrow> FileRef list \<Rightarrow> ('w::len word) SegmentFileIterator" where
  "NewSegmentFileIterator d s fs =
     \<lparr>dataset = d, segment = s, files = fs, index = - 1,
      current = zero_ObjectRef, err = None, closed = False\<rparr>"

definition SegmentFileIterator_Next ::
    "('w::len word) SegmentFileIterator \<Rightarrow> panic + (bool \<times> 'w word SegmentFileIterator)" where
  "SegmentFileIterator_Next it =
     (if closed it then Inr (False, it)
      else
        let it1 = it\<lparr>index := index it + 1\<rparr> in
        if sint (index it1) \<ge> int (length (files it1)) then Inr (False, it1)
        else if sint (index it1) < 0 then Inl IndexOutOfRange
        else Inr (True, it1\<lparr>current :=
               \<lparr>Dataset = dataset it1, Segment = segment it1,
                Path = FileRef.Path (files it1 ! nat (sint (index it1)))\<rparr>\<rparr>))"

definition SegmentFileIterator_Ref :: "'i SegmentFileIterator \<Rightarrow> ObjectRef" where
  "SegmentFileIterator_Ref it = current it"

definition SegmentFileIterator_Err :: "'i SegmentFileIterator \<Rightarrow> error option" where
  "SegmentFileIterator_Err it = err it"

definition SegmentFileIterator_Close ::
    "'i SegmentFileIterator \<Rightarrow> error option \<times> 'i SegmentFileIterator" where
  "SegmentFileIterator_Close it = (None, it\<lparr>closed := True, files := []\<rparr>)"

text \<open>\<open>ListingIterator\<close>: the same over a slice of object keys.\<close>

record 'i ListingIterator =
  dataset :: DatasetID
  segment :: SegmentRef
  keys :: "ObjectKey list"
  index :: 'i
  current :: ObjectRef
  err :: "error option"
  closed :: bool

definition NewListingIterator ::
    "DatasetID \<Rightarrow> SegmentRef \<Rightarrow> ObjectKey list \<Rightarrow> ('w::len word) ListingIterator" where
  "NewListingIterator d s ks =
     \<lparr>dataset = d, segment = s, keys = ks, index = - 1,
      current = zero_ObjectRef, err = None, closed = False\<rparr>"

definition ListingIterator_Next ::
    "('w::len word) ListingIterator \<Rightarrow> panic + (bool \<times> 'w word ListingIterator)" where
  "ListingIterator_Next it =
     (if closed it then Inr (False, it)
      else
        let it1 = it\<lparr>index := index it + 1\<rparr> in
        if sint (index it1) \<ge> int (length (keys it1)) then Inr (False, it1)
        else if sint (index it1) < 0 then Inl IndexOutOfRange
        else Inr (True, it1\<lparr>current :=
               \<lparr>Dataset = dataset it1, Segment = segment it1,
                Path = keys it1 ! nat (sint (index it1))\<rparr>\<rparr>))"

definition ListingIterator_Ref :: "'i ListingIterator \<Rightarrow> ObjectRef" where
  "ListingIterator_Ref it = current it"

definition ListingIterator_Err :: "'i ListingIterator \<Rightarrow> error option" where
  "ListingIterator_Err it = err it"

definition ListingIterator_Close ::
    "'i ListingIterator \<Rightarrow> error option \<times> 'i ListingIterator" where
  "ListingIterator_Close it = (None, it\<lparr>closed := True, keys := []\<rparr>)"

text \<open>\<open>EmptyIterator\<close>.\<close>

record EmptyIterator =
  closed :: bool

definition NewEmptyIterator :: EmptyIterator where
  "NewEmptyIterator = \<lparr>closed = False\<rparr>"

definition EmptyIterator_Next :: "EmptyIterator \<Rightarrow> panic + (bool \<times> EmptyIterator)" where
  "EmptyIterator_Next it = Inr (False, it)"

definition EmptyIterator_Ref :: "EmptyIterator \<Rightarrow> ObjectRef" where
  "EmptyIterator_Ref it = zero_ObjectRef"

definition EmptyIterator_Err :: "EmptyIterator \<Rightarrow> error option" where
  "EmptyIterator_Err it = None"

definition EmptyIterator_Close :: "EmptyIterator \<Rightarrow> error option \<times> EmptyIterator" where
  "EmptyIterator_Close it = (None, it\<lparr>closed := True\<rparr>)"

text \<open>
  The interface \<open>ObjectIterator\<close> with its three implementations, a method call, what
  the call returns, and a caller making a sequence of calls on one iterator. A panic
  ends the run: \<open>run\<close> gives what the calls returned up to there, and either the
  iterator as the calls left it or the panic that stopped them. Call number \<open>j\<close>
  (from 0) of the sequence is made exactly when the \<open>j\<close> calls before it have returned.
\<close>

datatype 'i ObjectIterator =
    SegmentFiles "'i SegmentFileIterator"
  | Listing "'i ListingIterator"
  | Empty EmptyIterator

datatype call = CallNext | CallRef | CallErr | CallClose

datatype returned =
    NextReturned bool
  | RefReturned ObjectRef
  | ErrReturned "error option"
  | CloseReturned "error option"

fun invoke ::
    "('w::len word) ObjectIterator \<Rightarrow> call \<Rightarrow> panic + (returned \<times> 'w word ObjectIterator)" where
  "invoke (SegmentFiles it) CallNext =
     (case SegmentFileIterator_Next it of
        Inl p \<Rightarrow> Inl p
      | Inr (b, it') \<Rightarrow> Inr (NextReturned b, SegmentFiles it'))"
| "invoke (SegmentFiles it) CallRef =
     Inr (RefReturned (SegmentFileIterator_Ref it), SegmentFiles it)"
| "invoke (SegmentFiles it) CallErr =
     Inr (ErrReturned (SegmentFileIterator_Err it), SegmentFiles it)"
| "invoke (SegmentFiles it) CallClose =
     (case SegmentFileIterator_Close it of
        (e, it') \<Rightarrow> Inr (CloseReturned e, SegmentFiles it'))"
| "invoke (Listing it) CallNext =
     (case ListingIterator_Next it of
        Inl p \<Rightarrow> Inl p
      | Inr (b, it') \<Rightarrow> Inr (NextReturned b, Listing it'))"
| "invoke (Listing it) CallRef =
     Inr (RefReturned (ListingIterator_Ref it), Listing it)"
| "invoke (Listing it) CallErr =
     Inr (ErrReturned (ListingIterator_Err it), Listing it)"
| "invoke (Listing it) CallClose =
     (case ListingIterator_Close it of
        (e, it') \<Rightarrow> Inr (CloseReturned e, Listing it'))"
| "invoke (Empty it) CallNext =
     (case EmptyIterator_Next it of
        Inl p \<Rightarrow> Inl p
      | Inr (b, it') \<Rightarrow> Inr (NextReturned b, Empty it'))"
| "invoke (Empty it) CallRef =
     Inr (RefReturned (EmptyIterator_Ref it), Empty it)"
| "invoke (Empty it) CallErr =
     Inr (ErrReturned (EmptyIterator_Err it), Empty it)"
| "invoke (Empty it) CallClose =
     (case EmptyIterator_Close it of
        (e, it') \<Rightarrow> Inr (CloseReturned e, Empty it'))"

fun run ::
    "('w::len word) ObjectIterator \<Rightarrow> call list
      \<Rightarrow> returned list \<times> (panic + 'w word ObjectIterator)" where
  "run it [] = ([], Inr it)"
| "run it (c # cs) =
     (case invoke it c of
        Inl p \<Rightarrow> ([], Inl p)
      | Inr (r, it') \<Rightarrow> (case run it' cs of (rs, out) \<Rightarrow> (r # rs, out)))"

text \<open>
  Notions used in the proofs about iterators. \<open>finished\<close>: no later \<open>Next\<close> can return
  true (a closed iterator, and every \<open>EmptyIterator\<close>). \<open>nexts_done it k\<close>: the index of an
  unclosed \<open>it\<close> is where \<open>k\<close> calls of \<open>Next\<close> on a new iterator leave it.
  \<open>after_nexts d s fs n\<close>: the \<open>SegmentFileIterator\<close> made from \<open>d\<close>, \<open>s\<close> and \<open>fs\<close>, as
  it is after \<open>n\<close> calls of \<open>Next\<close> that returned and none of \<open>Close\<close>.
\<close>

fun finished :: "'i ObjectIterator \<Rightarrow> bool" where
  "finished (SegmentFiles it) = SegmentFileIterator.closed it"
| "finished (Listing it) = ListingIterator.closed it"
| "finished (Empty it) = True"

fun nexts_done :: "('w::len word) ObjectIterator \<Rightarrow> nat \<Rightarrow> bool" where
  "nexts_done (SegmentFiles it) k =
     (SegmentFileIterator.closed it \<or> SegmentFileIterator.index it = of_nat k - 1)"
| "nexts_done (Listing it) k =
     (ListingIterator.closed it \<or> ListingIterator.index it = of_nat k - 1)"
| "nexts_done (Empty it) k = True"

definition after_nexts ::
    "DatasetID \<Rightarrow> SegmentRef \<Rightarrow> FileRef list \<Rightarrow> nat \<Rightarrow> ('w::len word) SegmentFileIterator"
  where
  "after_nexts d s fs n =
     \<lparr>SegmentFileIterator.dataset = d, segment = s, files = fs, index = of_nat n - 1,
      current =
        (if n = 0 \<or> fs = [] then zero_ObjectRef
         else \<lparr>Dataset = d, Segment = s,
               Path = FileRef.Path (fs ! (min n (length fs) - 1))\<rparr>),
      err = None, closed = False\<rparr>"

section \<open>StoreAdapter\<close>

text \<open>
  The stores behind the adapter. A \<open>lode.Store\<close> is given by what its methods return
  (the adapter only reads: \<open>Get\<close> and \<open>List\<close>); a result \<open>(value, err)\<close> with a non-nil
  error is \<open>Inl\<close> of the error. Whether the store's dynamic type also implements
  \<open>RangeReadStore\<close> is what the type assertion \<open>store.(RangeReadStore)\<close> of
  \<open>NewStoreAdapter\<close> tests: \<open>range_methods\<close> is \<open>Some\<close> of the three further methods
  when it does, and \<open>None\<close> when it does not. A reader returned by \<open>ReaderAt\<close> is
  represented by the bytes it reads from.
\<close>

type_synonym byte = "8 word"

record RangeReadStore =
  rr_Stat :: "string \<Rightarrow> error + 64 word"
  rr_ReadRange :: "string \<Rightarrow> 64 word \<Rightarrow> 64 word \<Rightarrow> error + byte list"
  rr_ReaderAt :: "string \<Rightarrow> error + byte list"

record Store =
  store_Get :: "string \<Rightarrow> error + byte list"
  store_List :: "string \<Rightarrow> error + string list"
  range_methods :: "RangeReadStore option"

text \<open>
  The calls an adapter method makes on the underlying store are returned next to its
  result, in the order they are made.
\<close>

datatype store_call =
    Get_called string
  | List_called string
  | ReadRange_called string "64 word" "64 word"
  | ReaderAt_called string

record StoreAdapter =
  store :: Store
  rangeReadStore :: "RangeReadStore option"

definition NewStoreAdapter :: "Store \<Rightarrow> StoreAdapter" where
  "NewStoreAdapter st =
     (let adapter = \<lparr>store = st, rangeReadStore = None\<rparr> in
      case range_methods st of
        Some rrs \<Rightarrow> adapter\<lparr>rangeReadStore := Some rrs\<rparr>
      | None \<Rightarrow> adapter)"

definition Open :: "StoreAdapter \<Rightarrow> ObjectKey \<Rightarrow> (error + byte list) \<times> store_call list" where
  "Open a key = (store_Get (store a) key, [Get_called key])"

definition ReadRange ::
    "StoreAdapter \<Rightarrow> ObjectKey \<Rightarrow> 64 word \<Rightarrow> 64 word \<Rightarrow> (error + byte list) \<times> store_call list"
  where
  "ReadRange a key offset len =
     (case rangeReadStore a of
        None \<Rightarrow> (Inl ErrRangeReadNotSupported, [])
      | Some rrs \<Rightarrow> (rr_ReadRange rrs key offset len, [ReadRange_called key offset len]))"

definition ReaderAt :: "StoreAdapter \<Rightarrow> ObjectKey \<Rightarrow> (error + byte list) \<times> store_call list" where
  "ReaderAt a key =
     (case rangeReadStore a of
        None \<Rightarrow> (Inl ErrRangeReadNotSupported, [])
      | Some rrs \<Rightarrow> (rr_ReaderAt rrs key, [ReaderAt_called key]))"

text \<open>\<open>ListOptions\<close> and \<open>ListPage\<close> with the fields \<open>List\<close> uses; \<open>Limit\<close> is a Go \<open>int\<close>.\<close>

record ListOptions =
  Limit :: int

record ListPage =
  Keys :: "ObjectKey list"
  HasMore :: bool

definition List :: "StoreAdapter \<Rightarrow> ObjectKey \<Rightarrow> ListOptions \<Rightarrow> (error + ListPage) \<times> store_call list"
  where
  "List a prefix opts =
     (case store_List (store a) prefix of
        Inl e \<Rightarrow> (Inl e, [List_called prefix])
      | Inr paths \<Rightarrow>
          let keys = paths in
          if Limit opts > 0 \<and> int (length keys) > Limit opts
          then (Inr \<lparr>Keys = take (nat (Limit opts)) keys, HasMore = True\<rparr>, [List_called prefix])
          else (Inr \<lparr>Keys = keys, HasMore = False\<rparr>, [List_called prefix]))"

definition SupportsRangeReads :: "StoreAdapter \<Rightarrow> bool" where
  "SupportsRangeReads a = (rangeReadStore a \<noteq> None)"

section \<open>MD5 checksum\<close>

text \<open>
  \<open>crypto/md5\<close> computes the MD5 message digest of RFC 1321: the message is padded with
  the byte \<open>0x80\<close>, zero bytes up to 56 modulo 64 and its length in bits (a \<open>uint64\<close>,
  \<open>len << 3\<close>) as 8 bytes, least significant first; each block of 64 bytes, read as 16
  little-endian 32-bit words, goes through 64 steps on four 32-bit words; the digest is
  the four words, least significant byte first.
\<close>

type_synonym word32 = "32 word"

definition md5_init :: "word32 \<times> word32 \<times> word32 \<times> word32" where
  "md5_init = (0x67452301, 0xefcdab89, 0x98badcfe, 0x10325476)"

definition md5_shifts :: "nat list" where
  "md5_shifts =
     [7, 12, 17, 22, 7, 12, 17, 22, 7, 12, 17, 22, 7, 12, 17, 22,
      5, 9, 14, 20, 5, 9, 14, 20, 5, 9, 14, 20, 5, 9, 14, 20,
      4, 11, 16, 23, 4, 11, 16, 23, 4, 11, 16, 23, 4, 11, 16, 23,
      6, 10, 15, 21, 6, 10, 15, 21, 6, 10, 15, 21, 6, 10, 15, 21]"

definition md5_table :: "word32 list" where
  "md5_table =
     [0xd76aa478, 0xe8c7b756, 0x242070db, 0xc1bdceee,
      0xf57c0faf, 0x4787c62a, 0xa8304613, 0xfd469501,
      0x698098d8, 0x8b44f7af, 0xffff5bb1, 0x895cd7be,
      0x6b901122, 0xfd987193, 0xa679438e, 0x49b40821,
      0xf61e2562, 0xc040b340, 0x265e5a51, 0xe9b6c7aa,
      0xd62f105d, 0x02441453, 0xd8a1e681, 0xe7d3fbc8,
      0x21e1cde6, 0xc33707d6, 0xf4d50d87, 0x455a14ed,
      0xa9e3e905, 0xfcefa3f8, 0x676f02d9, 0x8d2a4c8a,
      0xfffa3942, 0x8771f681, 0x6d9d6122, 0xfde5380c,
      0xa4beea44, 0x4bdecfa9, 0xf6bb4b60, 0xbebfbc70,
      0x289b7ec6, 0xeaa127fa, 0xd4ef3085, 0x04881d05,
      0xd9d4d039, 0xe6db99e5, 0x1fa27cf8, 0xc4ac5665,
      0xf4292244, 0x432aff97, 0xab9423a7, 0xfc93a039,
      0x655b59c3, 0x8f0ccc92, 0xffeff47d, 0x85845dd1,
      0x6fa87e4f, 0xfe2ce6e0, 0xa3014314, 0x4e0811a1,
      0xf7537e82, 0xbd3af235, 0x2ad7d2bb, 0xeb86d391]"

text \<open>Step \<open>i < 64\<close> on the 16 words \<open>M\<close> of a block.\<close>

definition md5_step ::
    "word32 list \<Rightarrow> word32 \<times> word32 \<times> word32 \<times> word32 \<Rightarrow> nat
      \<Rightarrow> word32 \<times> word32 \<times> word32 \<times> word32" where
  "md5_step M st i =
     (case st of (a, b, c, d) \<Rightarrow>
        let f = (if i < 16 then (b AND c) OR (NOT b AND d)
                 else if i < 32 then (d AND b) OR (NOT d AND c)
                 else if i < 48 then b XOR c XOR d
                 else c XOR (b OR NOT d));
            g = (if i < 16 then i
                 else if i < 32 then (5 * i + 1) mod 16
                 else if i < 48 then (3 * i + 5) mod 16
                 else (7 * i) mod 16);
            f' = f + a + md5_table ! i + M ! g
        in (d, b + word_rotl (md5_shifts ! i) f', b, c))"

fun le_word32 :: "byte list \<Rightarrow> word32" where
  "le_word32 [] = 0"
| "le_word32 (b # bs) = ucast b + push_bit 8 (le_word32 bs)"

text \<open>The \<open>k\<close> low bytes of a word, least significant first: \<open>byte(w >> (8 * j))\<close>.\<close>

definition le_bytes :: "nat \<Rightarrow> 'a::len word \<Rightarrow> byte list" where
  "le_bytes k w = map (\<lambda>j. ucast (drop_bit (8 * j) w)) [0..<k]"

definition md5_block ::
    "word32 \<times> word32 \<times> word32 \<times> word32 \<Rightarrow> byte list
      \<Rightarrow> word32 \<times> word32 \<times> word32 \<times> word32" where
  "md5_block st block =
     (let M = map (\<lambda>j. le_word32 (take 4 (drop (4 * j) block))) [0..<16] in
      case st of (a0, b0, c0, d0) \<Rightarrow>
        (case foldl (md5_step M) st [0..<64] of
           (a, b, c, d) \<Rightarrow> (a0 + a, b0 + b, c0 + c, d0 + d)))"

definition md5_pad :: "byte list \<Rightarrow> byte list" where
  "md5_pad msg =
     msg @ [0x80] @ replicate ((119 - length msg mod 64) mod 64) 0 @
     le_bytes 8 (push_bit 3 (of_nat (length msg) :: 64 word))"

function blocks64 :: "byte list \<Rightarrow> byte list list" where
  "blocks64 xs = (if xs = [] then [] else take 64 xs # blocks64 (drop 64 xs))"
  by pat_completeness auto
termination
  by (relation "measure length") auto

declare blocks64.simps [simp del]

definition md5_Sum :: "byte list \<Rightarrow> byte list" where
  "md5_Sum msg =
     (case foldl md5_block md5_init (blocks64 (md5_pad msg)) of
        (a, b, c, d) \<Rightarrow> concat (map (le_bytes 4) [a, b, c, d]))"

text \<open>\<open>hex.EncodeToString\<close>: two digits of \<open>hextable\<close> per byte, high nibble first.\<close>

definition hextable :: string where
  "hextable = ''0123456789abcdef''"

definition hex_EncodeToString :: "byte list \<Rightarrow> string" where
  "hex_EncodeToString src =
     concat (map (\<lambda>v. [hextable ! unat (drop_bit 4 v), hextable ! unat (v AND 0x0f)]) src)"

text \<open>
  The checksum component. \<open>hashWriter\<close> wraps the running hash \<open>h\<close> made by \<open>md5.New()\<close>,
  which is represented by the bytes written to it so far: \<open>h.Write\<close> takes all of \<open>p\<close> and
  never fails, and \<open>h.Sum(nil)\<close> is the digest of what was written.
\<close>

definition Name :: string where
  "Name = ''md5''"

record hashWriter =
  h :: "byte list"

definition NewHasher :: hashWriter where
  "NewHasher = \<lparr>h = []\<rparr>"

definition hashWriter_Write :: "hashWriter \<Rightarrow> byte list \<Rightarrow> (int \<times> error option) \<times> hashWriter" where
  "hashWriter_Write hw p = ((int (length p), None), hw\<lparr>h := h hw @ p\<rparr>)"

definition hashWriter_Sum :: "hashWriter \<Rightarrow> string" where
  "hashWriter_Sum hw = hex_EncodeToString (md5_Sum (h hw))"

text \<open>A hasher after the writes \<open>ps\<close>, made in that order.\<close>

definition written :: "byte list list \<Rightarrow> hashWriter" where
  "written ps = foldl (\<lambda>hw p. snd (hashWriter_Write hw p)) NewHasher ps"

chapter \<open>Properties\<close>

section \<open>Splitting and joining\<close>

lemma Split_Nil: "strings_Split [] sep = [[]]"
  by (simp add: strings_Split.simps)

lemma Split_no_sep: "sep \<notin> set a \<Longrightarrow> strings_Split a sep = [a]"
proof -
  assume "sep \<notin> set a"
  then have "dropWhile (\<lambda>c. c \<noteq> sep) a = []"
    by (auto simp add: dropWhile_eq_Nil_conv)
  then show ?thesis
    by (subst strings_Split.simps) (simp only: list.case)
qed

lemma Split_append:
  assumes "sep \<notin> set a"
  shows "strings_Split (a @ sep # rest) sep = a # strings_Split rest sep"
proof -
  from assms have "\<forall>c\<in>set a. c \<noteq> sep" by auto
  then have "dropWhile (\<lambda>c. c \<noteq> sep) (a @ sep # rest) = sep # rest"
    and "takeWhile (\<lambda>c. c \<noteq> sep) (a @ sep # rest) = a"
    by simp_all
  then show ?thesis by (subst strings_Split.simps) simp
qed

lemma Split_sep: "strings_Split (sep # cs) sep = [] # strings_Split cs sep"
  using Split_append [of sep "[]" cs] by simp

lemma Split_not_sep:
  assumes "c \<noteq> sep"
  shows "strings_Split (c # cs) sep =
     (case strings_Split cs sep of [] \<Rightarrow> [[c]] | p # ps \<Rightarrow> (c # p) # ps)"
proof (cases "dropWhile (\<lambda>c. c \<noteq> sep) cs")
  case Nil
  have "strings_Split cs sep = [cs]"
    by (subst strings_Split.simps) (simp only: Nil list.case)
  moreover have "dropWhile (\<lambda>c. c \<noteq> sep) (c # cs) = []"
    using assms Nil by simp
  then have "strings_Split (c # cs) sep = [c # cs]"
    by (subst strings_Split.simps) (simp only: list.case)
  ultimately show ?thesis by simp
next
  case (Cons x rest)
  have "strings_Split cs sep = takeWhile (\<lambda>c. c \<noteq> sep) cs # strings_Split rest sep"
    by (subst strings_Split.simps) (simp only: Cons list.case)
  moreover have "dropWhile (\<lambda>c. c \<noteq> sep) (c # cs) = x # rest"
    using assms Cons by simp
  then have "strings_Split (c # cs) sep =
      takeWhile (\<lambda>c. c \<noteq> sep) (c # cs) # strings_Split rest sep"
    by (subst strings_Split.simps) (simp only: list.case)
  ultimately show ?thesis using assms by simp
qed

lemmas Split_eval = Split_Nil Split_sep Split_not_sep

lemma Split_not_Nil: "strings_Split s sep \<noteq> []"
  by (subst strings_Split.simps) (simp split: list.splits)

lemma Join_Split: "strings_Join (strings_Split s sep) [sep] = s"
proof (induction s)
  case Nil
  show ?case by (simp add: Split_Nil)
next
  case (Cons c cs)
  show ?case
  proof (cases "c = sep")
    case True
    obtain p ps where "strings_Split cs sep = p # ps"
      using Split_not_Nil [of cs sep] by (cases "strings_Split cs sep") auto
    with True Cons show ?thesis by (simp add: Split_sep)
  next
    case False
    obtain p ps where ps: "strings_Split cs sep = p # ps"
      using Split_not_Nil [of cs sep] by (cases "strings_Split cs sep") auto
    with False Cons show ?thesis
      by (cases ps) (simp_all add: Split_not_sep)
  qed
qed

lemma Split_component_no_sep: "x \<in> set (strings_Split s sep) \<Longrightarrow> sep \<notin> set x"
proof (induction s arbitrary: x)
  case Nil
  then show ?case by (simp add: Split_Nil)
next
  case (Cons c cs)
  show ?case
  proof (cases "c = sep")
    case True
    with Cons show ?thesis by (auto simp: Split_sep)
  next
    case False
    obtain p ps where ps: "strings_Split cs sep = p # ps"
      using Split_not_Nil [of cs sep] by (cases "strings_Split cs sep") auto
    with False Cons.prems have "x = c # p \<or> x \<in> set ps"
      by (simp add: Split_not_sep)
    moreover have "sep \<notin> set p" and "\<And>y. y \<in> set ps \<Longrightarrow> sep \<notin> set y"
      using Cons.IH ps by simp_all
    ultimately show ?thesis using False by auto
  qed
qed

lemma Split_Join:
  "xs \<noteq> [] \<Longrightarrow> \<forall>x\<in>set xs. sep \<notin> set x \<Longrightarrow>
   strings_Split (strings_Join xs [sep]) sep = xs"
proof (induction xs "[sep]" rule: strings_Join.induct)
  case 1
  then show ?case by simp
next
  case (2 x)
  then show ?case by (simp add: Split_no_sep)
next
  case (3 x y ys)
  then show ?case by (simp add: Split_append)
qed

section \<open>The library model and the layout on known cases\<close>

text \<open>The examples of the documentation of \<open>path.Clean\<close> and \<open>path.Join\<close>.\<close>

lemma path_Clean_examples:
  "path_Clean ''a/c'' = ''a/c''"
  "path_Clean ''a//c'' = ''a/c''"
  "path_Clean ''a/c/.'' = ''a/c''"
  "path_Clean ''a/c/b/..'' = ''a/c''"
  "path_Clean ''/../a/c'' = ''/a/c''"
  "path_Clean ''/../a/b/../././/c'' = ''/a/c''"
  "path_Clean '''' = ''.''"
  by (simp_all add: path_Clean_def Split_eval)

lemma path_Join_examples:
  "path_Join [''a'', ''b'', ''c''] = ''a/b/c''"
  "path_Join [''a'', ''b/c''] = ''a/b/c''"
  "path_Join [''a/b'', ''c''] = ''a/b/c''"
  "path_Join [''a/b'', ''../../../xyz''] = ''../xyz''"
  "path_Join ['''', ''''] = ''''"
  "path_Join [''a'', ''''] = ''a''"
  "path_Join ['''', ''a''] = ''a''"
  by (simp_all add: path_Join_def path_Clean_def Split_eval)

text \<open>The cases of the repository's tests of \<open>DefaultLayout\<close>.\<close>

lemma DefaultLayout_test_cases:
  "DatasetsPrefix = ''datasets/''"
  "SegmentsPrefix ''my-dataset'' = ''datasets/my-dataset/snapshots/''"
  "ManifestPath ''my-dataset'' ''snap-1'' = ''datasets/my-dataset/snapshots/snap-1/manifest.json''"
  "IsManifest ''datasets/foo/snapshots/bar/manifest.json''"
  "\<not> IsManifest ''some/path/manifest.json''"
  "\<not> IsManifest ''datasets/foo/snapshots/bar/data/manifest.json''"
  "\<not> IsManifest ''datasets/foo/snapshots/bar/data.json''"
  "ParseDatasetID ''datasets/my-dataset/snapshots/snap-1/manifest.json'' = ''my-dataset''"
  "ParseDatasetID ''datasets/foo/misc/manifest.json'' = []"
  "ParseSegmentID ''datasets/my-dataset/snapshots/snap-1/manifest.json'' = ''snap-1''"
  "ParseSegmentID ''some/path/seg-id/manifest.json'' = []"
  "ExtractPartitionPath ''datasets/ds/snapshots/snap/data/day=2024-01-01/file.json''
     = ''day=2024-01-01''"
  "ExtractPartitionPath ''datasets/ds/snapshots/snap/data/day=2024-01-01/hour=12/file.json''
     = ''day=2024-01-01/hour=12''"
  "ExtractPartitionPath ''datasets/ds/snapshots/snap/data/file.json'' = []"
  "ExtractPartitionPath ''datasets/ds/snapshots/snap/file.json'' = []"
  "ExtractPartitionPath [] = []"
  by (simp_all add: DatasetsPrefix_def SegmentsPrefix_def ManifestPath_def IsManifest_def
      ParseDatasetID_def ParseSegmentID_def isValidManifestPath_def ExtractPartitionPath_def
      path_Join_def path_Clean_def Split_eval defaultDatasetsDir_def defaultSnapshotsDir_def
      defaultManifestFile_def defaultDataDir_def)

section \<open>Recognising manifest paths\<close>

lemma isValidManifestPath_iff:
  "isValidManifestPath p \<longleftrightarrow>
     (\<exists>d s. d \<noteq> [] \<and> s \<noteq> [] \<and>
        strings_Split p (CHR ''/'') = [''datasets'', d, ''snapshots'', s, ''manifest.json''])"
proof
  assume v: "isValidManifestPath p"
  let ?parts = "strings_Split p (CHR ''/'')"
  from v have len: "length ?parts = 5"
    by (simp add: isValidManifestPath_def Let_def split: if_splits)
  then obtain a b c d e where parts: "?parts = [a, b, c, d, e]"
    by (auto simp: length_Suc_conv eval_nat_numeral)
  with v show "\<exists>d s. d \<noteq> [] \<and> s \<noteq> [] \<and>
      ?parts = [''datasets'', d, ''snapshots'', s, ''manifest.json'']"
    by (simp add: isValidManifestPath_def defaultDatasetsDir_def defaultSnapshotsDir_def
        defaultManifestFile_def)
next
  assume "\<exists>d s. d \<noteq> [] \<and> s \<noteq> [] \<and>
      strings_Split p (CHR ''/'') = [''datasets'', d, ''snapshots'', s, ''manifest.json'']"
  then show "isValidManifestPath p"
    by (auto simp: isValidManifestPath_def defaultDatasetsDir_def defaultSnapshotsDir_def
        defaultManifestFile_def)
qed

text \<open>
  The same in terms of the text of the path: exactly the paths
  \<open>datasets/<d>/snapshots/<s>/manifest.json\<close> with \<open>d\<close> and \<open>s\<close> non-empty and free
  of slashes are recognised.
\<close>

lemma isValidManifestPath_shape:
  "isValidManifestPath p \<longleftrightarrow>
     (\<exists>d s. d \<noteq> [] \<and> s \<noteq> [] \<and> CHR ''/'' \<notin> set d \<and> CHR ''/'' \<notin> set s \<and>
        p = ''datasets/'' @ d @ ''/snapshots/'' @ s @ ''/manifest.json'')"
proof
  assume "isValidManifestPath p"
  then obtain d s where ds: "d \<noteq> []" "s \<noteq> []"
    and sp: "strings_Split p (CHR ''/'') = [''datasets'', d, ''snapshots'', s, ''manifest.json'']"
    by (auto simp: isValidManifestPath_iff)
  have "d \<in> set (strings_Split p (CHR ''/''))" "s \<in> set (strings_Split p (CHR ''/''))"
    by (simp_all add: sp)
  then have "CHR ''/'' \<notin> set d" "CHR ''/'' \<notin> set s"
    by (blast dest: Split_component_no_sep)+
  moreover have "p = strings_Join [''datasets'', d, ''snapshots'', s, ''manifest.json''] ''/''"
    using Join_Split [of p "CHR ''/''"] sp by simp
  ultimately show "\<exists>d s. d \<noteq> [] \<and> s \<noteq> [] \<and> CHR ''/'' \<notin> set d \<and> CHR ''/'' \<notin> set s \<and>
        p = ''datasets/'' @ d @ ''/snapshots/'' @ s @ ''/manifest.json''"
    using ds by auto
next
  assume "\<exists>d s. d \<noteq> [] \<and> s \<noteq> [] \<and> CHR ''/'' \<notin> set d \<and> CHR ''/'' \<notin> set s \<and>
        p = ''datasets/'' @ d @ ''/snapshots/'' @ s @ ''/manifest.json''"
  then obtain d s where ds: "d \<noteq> []" "s \<noteq> []" "CHR ''/'' \<notin> set d" "CHR ''/'' \<notin> set s"
    and p: "p = ''datasets/'' @ d @ ''/snapshots/'' @ s @ ''/manifest.json''"
    by blast
  have "p = strings_Join [''datasets'', d, ''snapshots'', s, ''manifest.json''] ''/''"
    by (simp add: p)
  moreover have "strings_Split (strings_Join [''datasets'', d, ''snapshots'', s, ''manifest.json'']
      [CHR ''/'']) (CHR ''/'') = [''datasets'', d, ''snapshots'', s, ''manifest.json'']"
    by (rule Split_Join) (use ds in auto)
  ultimately show "isValidManifestPath p"
    using ds by (auto simp: isValidManifestPath_iff)
qed

text \<open>
  C2. \<open>IsManifest p\<close> holds exactly when \<open>p\<close> splits on \<open>/\<close> into the five components
  \<open>datasets\<close>, a non-empty dataset ID, \<open>snapshots\<close>, a non-empty snapshot ID and
  \<open>manifest.json\<close>, that is, exactly when \<open>p\<close> is the text
  \<open>datasets/<d>/snapshots/<s>/manifest.json\<close> for non-empty \<open>d\<close> and \<open>s\<close> without a
  slash; the empty string, a bare \<open>manifest.json\<close>, a manifest under
  \<open>misc\<close>, one with the segment missing, one nested too deep and one with the wrong
  file name are all rejected.
\<close>

theorem IsManifest_exactly_canonical:
  "(IsManifest p \<longleftrightarrow>
      (\<exists>d s. d \<noteq> [] \<and> s \<noteq> [] \<and>
         strings_Split p (CHR ''/'') = [''datasets'', d, ''snapshots'', s, ''manifest.json'']))
   \<and> (IsManifest p \<longleftrightarrow>
      (\<exists>d s. d \<noteq> [] \<and> s \<noteq> [] \<and> CHR ''/'' \<notin> set d \<and> CHR ''/'' \<notin> set s \<and>
         p = ''datasets/'' @ d @ ''/snapshots/'' @ s @ ''/manifest.json''))
   \<and> \<not> IsManifest []
   \<and> \<not> IsManifest ''manifest.json''
   \<and> \<not> IsManifest ''datasets/x/misc/manifest.json''
   \<and> \<not> IsManifest ''datasets/x/snapshots/manifest.json''
   \<and> \<not> IsManifest ''datasets/x/snapshots/y/sub/manifest.json''
   \<and> \<not> IsManifest ''datasets/x/snapshots/y/manifest.txt''"
proof -
  have "\<not> IsManifest []"
    by (simp add: IsManifest_def isValidManifestPath_def Split_eval)
  moreover have "\<not> IsManifest ''manifest.json''"
    by (simp add: IsManifest_def isValidManifestPath_def Split_eval)
  moreover have "\<not> IsManifest ''datasets/x/misc/manifest.json''"
    by (simp add: IsManifest_def isValidManifestPath_def Split_eval)
  moreover have "\<not> IsManifest ''datasets/x/snapshots/manifest.json''"
    by (simp add: IsManifest_def isValidManifestPath_def Split_eval)
  moreover have "\<not> IsManifest ''datasets/x/snapshots/y/sub/manifest.json''"
    by (simp add: IsManifest_def isValidManifestPath_def Split_eval)
  moreover have "\<not> IsManifest ''datasets/x/snapshots/y/manifest.txt''"
    by (simp add: IsManifest_def isValidManifestPath_def Split_eval defaultDatasetsDir_def
        defaultSnapshotsDir_def defaultManifestFile_def)
  moreover have "IsManifest p \<longleftrightarrow>
      (\<exists>d s. d \<noteq> [] \<and> s \<noteq> [] \<and>
         strings_Split p (CHR ''/'') = [''datasets'', d, ''snapshots'', s, ''manifest.json''])"
    by (simp only: IsManifest_def isValidManifestPath_iff)
  moreover have "IsManifest p \<longleftrightarrow>
      (\<exists>d s. d \<noteq> [] \<and> s \<noteq> [] \<and> CHR ''/'' \<notin> set d \<and> CHR ''/'' \<notin> set s \<and>
         p = ''datasets/'' @ d @ ''/snapshots/'' @ s @ ''/manifest.json'')"
    by (simp only: IsManifest_def isValidManifestPath_shape)
  ultimately show ?thesis
    by (intro conjI)
qed

section \<open>Manifest paths: construction and parsing\<close>

lemma Join_append:
  "xs \<noteq> [] \<Longrightarrow> ys \<noteq> [] \<Longrightarrow>
   strings_Join (xs @ ys) sep = strings_Join xs sep @ sep @ strings_Join ys sep"
proof (induction xs sep rule: strings_Join.induct)
  case (1 sep)
  then show ?case by simp
next
  case (2 x sep)
  then show ?case by (cases ys) simp_all
next
  case (3 x y ys sep)
  then show ?case by simp
qed

text \<open>Elements that are neither empty nor \<open>.\<close> nor \<open>..\<close> pass through \<open>path.Clean\<close>.\<close>

lemma clean_elems_plain:
  "\<forall>e\<in>set es. e \<noteq> [] \<and> e \<noteq> ''.'' \<and> e \<noteq> ''..'' \<Longrightarrow>
   clean_elems rooted es out = rev out @ es"
  by (induction es arbitrary: out) simp_all

lemma path_Clean_plain:
  assumes "es \<noteq> []"
    and "\<forall>e\<in>set es. e \<noteq> [] \<and> e \<noteq> ''.'' \<and> e \<noteq> ''..'' \<and> CHR ''/'' \<notin> set e"
  shows "path_Clean (strings_Join es ''/'') = strings_Join es ''/''"
proof -
  let ?p = "strings_Join es ''/''"
  obtain e es' where es: "es = e # es'" using assms(1) by (cases es) auto
  then obtain c cs where e: "e = c # cs" and c: "c \<noteq> CHR ''/''"
    using assms(2) by (cases e) auto
  have hd: "hd ?p = c" and ne: "?p \<noteq> []"
    unfolding es e by (cases es'; simp)+
  have "strings_Split ?p (CHR ''/'') = es"
    using Split_Join [of es "CHR ''/''"] assms by simp
  then show ?thesis
    using assms(2) c hd ne by (simp add: path_Clean_def clean_elems_plain)
qed

lemma ManifestPath_canonical:
  assumes "d \<noteq> []" "CHR ''/'' \<notin> set d" "d \<noteq> ''.''" "d \<noteq> ''..''"
    and "s \<noteq> []" "CHR ''/'' \<notin> set s" "s \<noteq> ''.''" "s \<noteq> ''..''"
  shows "ManifestPath d s = ''datasets/'' @ d @ ''/snapshots/'' @ s @ ''/manifest.json''"
proof -
  have "path_Clean (strings_Join [''datasets'', d, ''snapshots'', s, ''manifest.json''] ''/'')
      = strings_Join [''datasets'', d, ''snapshots'', s, ''manifest.json''] ''/''"
    by (rule path_Clean_plain) (use assms in auto)
  then show ?thesis
    by (simp add: ManifestPath_def path_Join_def defaultDatasetsDir_def
        defaultSnapshotsDir_def defaultManifestFile_def)
qed

lemma Parse_canonical:
  assumes "d \<noteq> []" "CHR ''/'' \<notin> set d" "s \<noteq> []" "CHR ''/'' \<notin> set s"
  shows "ParseDatasetID (''datasets/'' @ d @ ''/snapshots/'' @ s @ ''/manifest.json'') = d"
    and "ParseSegmentID (''datasets/'' @ d @ ''/snapshots/'' @ s @ ''/manifest.json'') = s"
proof -
  let ?p = "''datasets/'' @ d @ ''/snapshots/'' @ s @ ''/manifest.json''"
  let ?parts = "[''datasets'', d, ''snapshots'', s, ''manifest.json'']"
  have v: "isValidManifestPath ?p"
    using assms by (auto simp: isValidManifestPath_shape)
  have "?p = strings_Join ?parts [CHR ''/'']"
    by simp
  moreover have "strings_Split (strings_Join ?parts [CHR ''/'']) (CHR ''/'') = ?parts"
    by (rule Split_Join) (use assms in auto)
  ultimately have sp: "strings_Split ?p (CHR ''/'') = ?parts"
    by simp
  show "ParseDatasetID ?p = d" using v sp by (simp add: ParseDatasetID_def)
  show "ParseSegmentID ?p = s" using v sp by (simp add: ParseSegmentID_def)
qed

text \<open>
  The round trip through \<open>ManifestPath\<close> holds for every valid ID other than the dot
  elements \<open>.\<close> and \<open>..\<close>, which \<open>path.Join\<close> does not keep as components.
\<close>

lemma ManifestPath_roundtrip_without_dots:
  assumes "valid_id d" "d \<noteq> ''.''" "d \<noteq> ''..''" "valid_id s" "s \<noteq> ''.''" "s \<noteq> ''..''"
  shows "ParseDatasetID (ManifestPath d s) = d \<and> ParseSegmentID (ManifestPath d s) = s"
proof -
  have ne: "d \<noteq> []" "CHR ''/'' \<notin> set d" "s \<noteq> []" "CHR ''/'' \<notin> set s"
    using assms by (simp_all add: valid_id_def)
  have mp: "ManifestPath d s = ''datasets/'' @ d @ ''/snapshots/'' @ s @ ''/manifest.json''"
    using ne assms by (intro ManifestPath_canonical)
  show ?thesis
    unfolding mp using Parse_canonical [OF ne] by (rule conjI)
qed

text \<open>
  C1. The claim: for all valid \<open>d\<close> and \<open>s\<close>, parsing \<open>ManifestPath d s\<close> gives \<open>d\<close> and
  \<open>s\<close> back. The dataset ID \<open>.\<close> is valid (non-empty, no separator, no whitespace), but
  \<open>path.Join\<close> cleans the path and drops the \<open>.\<close> element: the manifest path has four
  components, is not recognised as a manifest, and the dataset ID parsed from it is empty.
  The same happens to \<open>..\<close>, which also removes the \<open>datasets\<close> element before it.
\<close>

theorem ManifestPath_dot_id_not_parsed_back:
  "valid_id ''.'' \<and> valid_id ''s''
   \<and> ManifestPath ''.'' ''s'' = ''datasets/snapshots/s/manifest.json''
   \<and> \<not> IsManifest (ManifestPath ''.'' ''s'')
   \<and> ParseDatasetID (ManifestPath ''.'' ''s'') = []
   \<and> ParseSegmentID (ManifestPath ''.'' ''s'') = []
   \<and> ManifestPath ''..'' ''s'' = ''snapshots/s/manifest.json''
   \<and> ManifestPath ''d'' ''..'' = ''datasets/d/manifest.json''"
proof -
  have mp: "ManifestPath ''.'' ''s'' = ''datasets/snapshots/s/manifest.json''"
    by (simp add: ManifestPath_def path_Join_def path_Clean_def Split_eval
        defaultDatasetsDir_def defaultSnapshotsDir_def defaultManifestFile_def)
  have nv: "\<not> isValidManifestPath ''datasets/snapshots/s/manifest.json''"
    by (simp add: isValidManifestPath_def Split_eval)
  have "ManifestPath ''..'' ''s'' = ''snapshots/s/manifest.json''"
    by (simp add: ManifestPath_def path_Join_def path_Clean_def Split_eval
        defaultDatasetsDir_def defaultSnapshotsDir_def defaultManifestFile_def)
  moreover have "ManifestPath ''d'' ''..'' = ''datasets/d/manifest.json''"
    by (simp add: ManifestPath_def path_Join_def path_Clean_def Split_eval
        defaultDatasetsDir_def defaultSnapshotsDir_def defaultManifestFile_def)
  moreover have "valid_id ''.''" "valid_id ''s''"
    by (simp_all add: valid_id_def isSpace_def)
  ultimately show ?thesis
    using nv by (simp only: mp IsManifest_def ParseDatasetID_def ParseSegmentID_def
        simp_thms if_True if_False)
qed

section \<open>Partition paths\<close>

lemma dataIdx_loop_skip:
  "\<forall>p\<in>set ps. p \<noteq> defaultDataDir \<Longrightarrow>
   dataIdx_loop (ps @ defaultDataDir # qs) i = i + int (length ps)"
  by (induction ps arbitrary: i) simp_all

lemma ExtractPartitionPath_parts:
  assumes pre: "\<forall>p\<in>set pre. p \<noteq> defaultDataDir \<and> CHR ''/'' \<notin> set p"
    and cs: "\<forall>c\<in>set cs. CHR ''/'' \<notin> set c"
    and f: "CHR ''/'' \<notin> set f"
  shows "ExtractPartitionPath (strings_Join (pre @ defaultDataDir # cs @ [f]) ''/'')
     = strings_Join cs ''/''"
proof -
  let ?parts = "pre @ defaultDataDir # cs @ [f]"
  have sp: "strings_Split (strings_Join ?parts ''/'') (CHR ''/'') = ?parts"
    using Split_Join [of ?parts "CHR ''/''"] assms by (auto simp: defaultDataDir_def)
  have idx: "dataIdx_loop ?parts 0 = int (length pre)"
    using dataIdx_loop_skip [of pre "cs @ [f]" 0] pre by simp
  have "drop (nat (int (length pre) + 1)) (take (length ?parts - 1) ?parts) = cs"
    by (simp add: nat_add_distrib)
  then show ?thesis
    unfolding ExtractPartitionPath_def sp Let_def idx
    by (cases cs) simp_all
qed

text \<open>
  On the canonical data path the partition fragment is returned as it is (and the empty
  string when there is none), as long as neither the dataset ID nor the snapshot ID is
  the word \<open>data\<close>.
\<close>

lemma ExtractPartitionPath_canonical:
  assumes "CHR ''/'' \<notin> set d" "d \<noteq> ''data''" "CHR ''/'' \<notin> set s" "s \<noteq> ''data''"
    and "CHR ''/'' \<notin> set f"
  shows "ExtractPartitionPath
           (''datasets/'' @ d @ ''/snapshots/'' @ s @ ''/data/'' @ frag @ ''/'' @ f) = frag"
    and "ExtractPartitionPath (''datasets/'' @ d @ ''/snapshots/'' @ s @ ''/data/'' @ f) = []"
proof -
  let ?pre = "[''datasets'', d, ''snapshots'', s]"
  let ?cs = "strings_Split frag (CHR ''/'')"
  have pre: "\<forall>p\<in>set ?pre. p \<noteq> defaultDataDir \<and> CHR ''/'' \<notin> set p"
    using assms by (simp add: defaultDataDir_def)
  have cs: "\<forall>c\<in>set ?cs. CHR ''/'' \<notin> set c"
    by (blast dest: Split_component_no_sep)
  obtain c cs' where ccs: "?cs = c # cs'"
    using Split_not_Nil [of frag "CHR ''/''"] by (cases ?cs) auto
  have fr: "strings_Join ?cs ''/'' = frag"
    using Join_Split [of frag "CHR ''/''"] by simp
  have "strings_Join (?pre @ defaultDataDir # ?cs @ [f]) ''/''
      = ''datasets/'' @ d @ ''/snapshots/'' @ s @ ''/data/'' @ strings_Join (?cs @ [f]) ''/''"
    by (simp add: ccs defaultDataDir_def)
  also have "strings_Join (?cs @ [f]) ''/'' = frag @ ''/'' @ f"
    using Join_append [of ?cs "[f]" "''/''"] fr by (simp add: ccs)
  finally have "ExtractPartitionPath
      (''datasets/'' @ d @ ''/snapshots/'' @ s @ ''/data/'' @ frag @ ''/'' @ f)
      = strings_Join ?cs ''/''"
    using ExtractPartitionPath_parts [OF pre cs assms(5)] by simp
  then show "ExtractPartitionPath
      (''datasets/'' @ d @ ''/snapshots/'' @ s @ ''/data/'' @ frag @ ''/'' @ f) = frag"
    by (simp only: fr)
  have e: "strings_Join (?pre @ defaultDataDir # [] @ [f]) ''/''
      = ''datasets/'' @ d @ ''/snapshots/'' @ s @ ''/data/'' @ f"
    by (simp add: defaultDataDir_def)
  have "ExtractPartitionPath (strings_Join (?pre @ defaultDataDir # [] @ [f]) ''/'') = []"
    using ExtractPartitionPath_parts [OF pre _ assms(5), of "[]"] by simp
  then show "ExtractPartitionPath (''datasets/'' @ d @ ''/snapshots/'' @ s @ ''/data/'' @ f) = []"
    by (simp only: e)
qed

text \<open>
  C7. The claim: on \<open>datasets/<d>/snapshots/<s>/data/<frag>/<f>\<close> the fragment is
  returned, and the empty string when there is no partition. \<open>ExtractPartitionPath\<close>
  takes the first component equal to \<open>data\<close> as the data directory, so for the valid
  dataset ID \<open>data\<close> (and likewise for the snapshot ID \<open>data\<close>) it starts the partition
  path too early.
\<close>

theorem ExtractPartitionPath_id_named_data:
  "valid_id ''data''
   \<and> ExtractPartitionPath ''datasets/data/snapshots/s/data/f.json'' = ''snapshots/s/data''
   \<and> ExtractPartitionPath ''datasets/data/snapshots/s/data/day=1/f.json''
       = ''snapshots/s/data/day=1''
   \<and> ExtractPartitionPath ''datasets/d/snapshots/data/data/day=1/f.json'' = ''data/day=1''"
proof -
  have "valid_id ''data''"
    by (simp add: valid_id_def isSpace_def)
  moreover have "ExtractPartitionPath ''datasets/data/snapshots/s/data/f.json''
      = ''snapshots/s/data''"
    by (simp add: ExtractPartitionPath_def Split_eval defaultDataDir_def)
  moreover have "ExtractPartitionPath ''datasets/data/snapshots/s/data/day=1/f.json''
      = ''snapshots/s/data/day=1''"
    by (simp add: ExtractPartitionPath_def Split_eval defaultDataDir_def)
  moreover have "ExtractPartitionPath ''datasets/d/snapshots/data/data/day=1/f.json''
      = ''data/day=1''"
    by (simp add: ExtractPartitionPath_def Split_eval defaultDataDir_def)
  ultimately show ?thesis by (simp only: simp_thms)
qed

section \<open>Manifest validation\<close>

lemma itoa_digit: "n < 10 \<Longrightarrow> itoa n = [digit n]"
  by (subst itoa.simps) simp

lemma first_failure_Nil: "first_failure [] = None"
  by (simp add: first_failure_def)

lemma first_failure_Cons:
  "first_failure ((f, ok) # cs) = (if ok then first_failure cs else Some f)"
  by (simp add: first_failure_def)

lemma first_failure_None_iff: "first_failure cs = None \<longleftrightarrow> list_all snd cs"
  by (induction cs) (auto simp: first_failure_Nil first_failure_Cons split: if_splits)

lemma validate_files_spec:
  "(case first_failure (spec_file_checks fs i) of
      None \<Rightarrow> validate_files fs i = None
    | Some f \<Rightarrow>
        (\<exists>msg. validate_files fs i = Some (ValidationError \<lparr>Field = f, Message = msg\<rparr>)))"
proof (induction fs arbitrary: i)
  case Nil
  show ?case by (simp add: first_failure_Nil)
next
  case (Cons a fs)
  from Cons [of "Suc i"] show ?case
    by (auto simp add: first_failure_Cons not_le split: option.splits)
qed

text \<open>
  The validator of the sources returns the first failing check of the specification's
  list, and nil when there is none.
\<close>

lemma ValidateManifest_spec:
  "(case first_failure (spec_checks mp) of
      None \<Rightarrow> ValidateManifest mp = None
    | Some f \<Rightarrow>
        (\<exists>msg. ValidateManifest mp = Some (ValidationError \<lparr>Field = f, Message = msg\<rparr>)))"
proof (cases mp)
  case None
  then show ?thesis
    by (simp add: spec_checks_def ValidateManifest_def first_failure_Cons)
next
  case (Some m)
  show ?thesis
  proof (cases "Files m")
    case None
    with Some show ?thesis
      by (simp add: spec_checks_def ValidateManifest_def first_failure_Cons first_failure_Nil)
  next
    case (Some fs)
    with \<open>mp = Some m\<close> validate_files_spec [of fs 0] show ?thesis
      by (auto simp add: spec_checks_def ValidateManifest_def first_failure_Cons not_le
          split: option.splits)
  qed
qed

text \<open>
  C3. \<open>ValidateManifest\<close> returns nil exactly for the manifests that pass every required
  check, and otherwise an error whose \<open>Field\<close> is the canonical JSON name of the first
  check that fails, in the order: manifest non-nil; \<open>schema_name\<close>, \<open>format_version\<close>,
  \<open>dataset_id\<close>, \<open>snapshot_id\<close> non-empty; \<open>created_at\<close> non-zero; \<open>metadata\<close> non-nil;
  \<open>files\<close> non-nil; \<open>row_count \<ge> 0\<close>; \<open>codec\<close>, \<open>compressor\<close>, \<open>partitioner\<close>
  non-empty; then for each file in order \<open>files[i].path\<close> non-empty and
  \<open>files[i].size_bytes \<ge> 0\<close>.
\<close>

theorem ValidateManifest_first_failing_check:
  "(ValidateManifest mp = None) = list_all snd (spec_checks mp)
   \<and> (case first_failure (spec_checks mp) of
        None \<Rightarrow> ValidateManifest mp = None
      | Some f \<Rightarrow>
          (\<exists>msg. ValidateManifest mp = Some (ValidationError \<lparr>Field = f, Message = msg\<rparr>)))"
proof -
  have "(ValidateManifest mp = None) = (first_failure (spec_checks mp) = None)"
    using ValidateManifest_spec [of mp] by (auto split: option.splits)
  then show ?thesis
    using ValidateManifest_spec [of mp] by (simp only: first_failure_None_iff simp_thms)
qed

text \<open>
  The manifest of the tests (\<open>validManifest\<close>, with some non-zero commit time) and three
  ways of breaking it: no codec, nil metadata, and a second file without a path.
\<close>

theorem ValidateManifest_first_failing_check_witness:
  "ValidateManifest (Some \<lparr>SchemaName = ''lode-manifest'', FormatVersion = ''1.0.0'',
      DatasetID = ''test-dataset'', SnapshotID = ''snap-1'', ParentSnapshotID = [],
      CreatedAt = \<lparr>sec = 63900000000, nsec = 0\<rparr>, Metadata = Some Map.empty,
      Files = Some [], RowCount = 0, MinTimestamp = None, MaxTimestamp = None,
      Codec = ''jsonl'', Compressor = ''noop'', Partitioner = ''noop''\<rparr>) = None
   \<and> (\<exists>msg. ValidateManifest (Some \<lparr>SchemaName = ''lode-manifest'', FormatVersion = ''1.0.0'',
      DatasetID = ''test-dataset'', SnapshotID = ''snap-1'', ParentSnapshotID = [],
      CreatedAt = \<lparr>sec = 63900000000, nsec = 0\<rparr>, Metadata = Some Map.empty,
      Files = Some [], RowCount = 0, MinTimestamp = None, MaxTimestamp = None,
      Codec = [], Compressor = ''noop'', Partitioner = ''noop''\<rparr>)
        = Some (ValidationError \<lparr>Field = ''codec'', Message = msg\<rparr>))
   \<and> (\<exists>msg. ValidateManifest (Some \<lparr>SchemaName = ''lode-manifest'', FormatVersion = ''1.0.0'',
      DatasetID = ''test-dataset'', SnapshotID = ''snap-1'', ParentSnapshotID = [],
      CreatedAt = \<lparr>sec = 63900000000, nsec = 0\<rparr>, Metadata = None,
      Files = Some [], RowCount = 0, MinTimestamp = None, MaxTimestamp = None,
      Codec = [], Compressor = ''noop'', Partitioner = ''noop''\<rparr>)
        = Some (ValidationError \<lparr>Field = ''metadata'', Message = msg\<rparr>))
   \<and> (\<exists>msg. ValidateManifest (Some \<lparr>SchemaName = ''lode-manifest'', FormatVersion = ''1.0.0'',
      DatasetID = ''test-dataset'', SnapshotID = ''snap-1'', ParentSnapshotID = [],
      CreatedAt = \<lparr>sec = 63900000000, nsec = 0\<rparr>, Metadata = Some Map.empty,
      Files = Some [\<lparr>FileRef.Path = ''data/file1.json'', SizeBytes = 100, Checksum = []\<rparr>,
                    \<lparr>FileRef.Path = [], SizeBytes = 200, Checksum = []\<rparr>],
      RowCount = 0, MinTimestamp = None, MaxTimestamp = None,
      Codec = ''jsonl'', Compressor = ''noop'', Partitioner = ''noop''\<rparr>)
        = Some (ValidationError \<lparr>Field = ''files[1].path'', Message = msg\<rparr>))"
proof -
  let ?ok = "\<lparr>SchemaName = ''lode-manifest'', FormatVersion = ''1.0.0'',
      DatasetID = ''test-dataset'', SnapshotID = ''snap-1'', ParentSnapshotID = [],
      CreatedAt = \<lparr>sec = 63900000000, nsec = 0\<rparr>, Metadata = Some Map.empty,
      Files = Some [], RowCount = 0, MinTimestamp = None, MaxTimestamp = None,
      Codec = ''jsonl'', Compressor = ''noop'', Partitioner = ''noop''\<rparr>"
  let ?no_codec = "?ok\<lparr>Codec := []\<rparr>"
  let ?no_metadata = "?ok\<lparr>Metadata := None, Codec := []\<rparr>"
  let ?bad_file = "?ok\<lparr>Files := Some [\<lparr>FileRef.Path = ''data/file1.json'', SizeBytes = 100, Checksum = []\<rparr>,
                    \<lparr>FileRef.Path = [], SizeBytes = 200, Checksum = []\<rparr>]\<rparr>"
  have "first_failure (spec_checks (Some ?ok)) = None"
    by (simp add: spec_checks_def first_failure_Cons first_failure_Nil IsZero_def)
  with ValidateManifest_first_failing_check [of "Some ?ok"]
  have 1: "ValidateManifest (Some ?ok) = None"
    by simp
  have "first_failure (spec_checks (Some ?no_codec)) = Some ''codec''"
    by (simp add: spec_checks_def first_failure_Cons first_failure_Nil IsZero_def)
  with ValidateManifest_first_failing_check [of "Some ?no_codec"]
  have 2: "\<exists>msg. ValidateManifest (Some ?no_codec)
      = Some (ValidationError \<lparr>Field = ''codec'', Message = msg\<rparr>)"
    by simp
  have "first_failure (spec_checks (Some ?no_metadata)) = Some ''metadata''"
    by (simp add: spec_checks_def first_failure_Cons first_failure_Nil IsZero_def)
  with ValidateManifest_first_failing_check [of "Some ?no_metadata"]
  have 3: "\<exists>msg. ValidateManifest (Some ?no_metadata)
      = Some (ValidationError \<lparr>Field = ''metadata'', Message = msg\<rparr>)"
    by simp
  have "first_failure (spec_checks (Some ?bad_file)) = Some ''files[1].path''"
    by (simp add: spec_checks_def first_failure_Cons first_failure_Nil IsZero_def
        itoa_digit digit_def)
  with ValidateManifest_first_failing_check [of "Some ?bad_file"]
  have 4: "\<exists>msg. ValidateManifest (Some ?bad_file)
      = Some (ValidationError \<lparr>Field = ''files[1].path'', Message = msg\<rparr>)"
    by simp
  from 1 2 3 4 show ?thesis by simp
qed

section \<open>Validation errors and the sentinel\<close>

lemma errors_Is_ValidationError:
  "errors_Is (ValidationError v) ErrManifestInvalid"
  by (simp add: errors_Is.simps [of "ValidationError v"] errors_Is.simps [of ErrManifestInvalid])

lemma errors_As_ValidationError:
  "errors_As_ManifestValidationError (ValidationError v) = Some v"
  by (simp add: errors_As_ManifestValidationError.simps [of "ValidationError v"])

text \<open>
  C5. Every non-nil error of \<open>ValidateManifest\<close> unwraps to the sentinel
  \<open>ErrManifestInvalid\<close> (\<open>errors.Is\<close> succeeds) and is a \<open>ManifestValidationError\<close>
  (\<open>errors.As\<close> succeeds) whose \<open>Field\<close> is the field of the first failing check.
\<close>

theorem ValidateManifest_error_is_sentinel_with_field:
  assumes "ValidateManifest mp = Some e"
  shows "errors_Is e ErrManifestInvalid
     \<and> Unwrap e = Some ErrManifestInvalid
     \<and> (\<exists>v. errors_As_ManifestValidationError e = Some v
            \<and> first_failure (spec_checks mp) = Some (Field v))"
proof -
  from assms ValidateManifest_spec [of mp]
  obtain f msg where "first_failure (spec_checks mp) = Some f"
    and "e = ValidationError \<lparr>Field = f, Message = msg\<rparr>"
    by (auto split: option.splits)
  then show ?thesis
    by (simp add: errors_Is_ValidationError errors_As_ValidationError)
qed

theorem ValidateManifest_error_is_sentinel_with_field_witness:
  "ValidateManifest None
     = Some (ValidationError \<lparr>Field = ''manifest'', Message = ''is nil''\<rparr>)
   \<and> errors_Is (ValidationError \<lparr>Field = ''manifest'', Message = ''is nil''\<rparr>)
        ErrManifestInvalid
   \<and> errors_As_ManifestValidationError
        (ValidationError \<lparr>Field = ''manifest'', Message = ''is nil''\<rparr>)
      = Some \<lparr>Field = ''manifest'', Message = ''is nil''\<rparr>"
proof -
  have v: "ValidateManifest None
      = Some (ValidationError \<lparr>Field = ''manifest'', Message = ''is nil''\<rparr>)"
    by (simp add: ValidateManifest_def)
  from ValidateManifest_error_is_sentinel_with_field [OF v] v
  show ?thesis
    by (auto simp: errors_As_ValidationError)
qed

section \<open>Iterator laws\<close>

text \<open>Reading small and wrapped indices as signed numbers.\<close>

lemma sint_of_nat_small:
  assumes "k < 2 ^ (LENGTH('w::len) - 1)"
  shows "sint (of_nat k :: 'w word) = int k"
proof -
  have "sint (of_nat k :: 'w word) = signed_take_bit (LENGTH('w) - 1) (int k)"
    by (simp add: signed_of_nat)
  also have "\<dots> = int k"
  proof (rule signed_take_bit_int_eq_self)
    show "- (2 ^ (LENGTH('w) - 1)) \<le> int k"
      by (rule order_trans [of _ 0]) simp_all
    have "int k < int (2 ^ (LENGTH('w) - 1))"
      using assms by (simp only: of_nat_less_iff)
    then show "int k < 2 ^ (LENGTH('w) - 1)"
      by simp
  qed
  finally show ?thesis .
qed

lemma sint_of_nat_wrap:
  "sint (of_nat (2 ^ (LENGTH('w::len) - 1)) :: 'w word) = - (2 ^ (LENGTH('w) - 1))"
proof -
  let ?n = "LENGTH('w) - 1"
  have g: "sint (of_nat m :: 'w word) = signed_take_bit ?n (int m)" for m
    by (simp add: signed_of_nat)
  have "sint (of_nat (2 ^ ?n) :: 'w word) = signed_take_bit ?n (int (2 ^ ?n))"
    by (rule g)
  also have "int (2 ^ ?n) = 2 ^ ?n"
    by simp
  also have "signed_take_bit ?n (2 ^ ?n :: int) = take_bit (Suc ?n) (2 ^ ?n + 2 ^ ?n :: int) - 2 ^ ?n"
    by (rule signed_take_bit_eq_take_bit_shift)
  also have "(2 ^ ?n + 2 ^ ?n :: int) = 2 ^ Suc ?n"
    by (simp only: power_Suc mult_2)
  also have "take_bit (Suc ?n) (2 ^ Suc ?n :: int) = 0"
    by (simp only: take_bit_eq_mod mod_self)
  finally show ?thesis by simp
qed

text \<open>What a single call does, in any state of the iterator.\<close>

lemma invoke_Close:
  "\<exists>it'. invoke it CallClose = Inr (CloseReturned None, it') \<and> finished it'"
  by (cases it)
    (simp_all add: SegmentFileIterator_Close_def ListingIterator_Close_def
      EmptyIterator_Close_def)

lemma invoke_Err: "\<exists>e. invoke it CallErr = Inr (ErrReturned e, it)"
  by (cases it) simp_all

lemma invoke_Ref: "\<exists>r. invoke it CallRef = Inr (RefReturned r, it)"
  by (cases it) simp_all

lemma invoke_Next_finished:
  "finished it \<Longrightarrow> invoke it CallNext = Inr (NextReturned False, it)"
  by (cases it)
    (simp_all add: SegmentFileIterator_Next_def ListingIterator_Next_def EmptyIterator_Next_def)

lemma invoke_finished:
  assumes "finished it"
  shows "\<exists>r it'. invoke it c = Inr (r, it') \<and> finished it'"
proof (cases c)
  case CallNext
  then show ?thesis using assms invoke_Next_finished [of it] by simp
next
  case CallRef
  then show ?thesis using assms invoke_Ref [of it] by auto
next
  case CallErr
  then show ?thesis using assms invoke_Err [of it] by auto
next
  case CallClose
  then show ?thesis using invoke_Close [of it] by auto
qed

lemma finished_kept:
  "finished it \<Longrightarrow> invoke it c = Inr (r, it') \<Longrightarrow> finished it'"
  using invoke_finished [of it c] by auto

lemma run_Cons_Inr:
  "invoke it c = Inr (r, it') \<Longrightarrow>
   run it (c # cs) = (r # fst (run it' cs), snd (run it' cs))"
  by (simp add: case_prod_beta)

lemma run_Cons_Inl: "invoke it c = Inl p \<Longrightarrow> run it (c # cs) = ([], Inl p)"
  by simp

lemma run_length: "length (fst (run it calls)) \<le> length calls"
proof (induction calls arbitrary: it)
  case Nil
  show ?case by simp
next
  case (Cons c cs)
  show ?case
  proof (cases "invoke it c")
    case (Inl p)
    then show ?thesis by (simp add: run_Cons_Inl)
  next
    case (Inr x)
    then show ?thesis using Cons [of "snd x"] by (cases x) (simp add: case_prod_beta)
  qed
qed

lemma run_laws:
  assumes "j < length calls" and "j \<le> length (fst (run it calls))"
  shows "(calls ! j = CallClose \<longrightarrow>
            j < length (fst (run it calls)) \<and> fst (run it calls) ! j = CloseReturned None)
       \<and> (calls ! j = CallErr \<longrightarrow>
            j < length (fst (run it calls)) \<and> (\<exists>e. fst (run it calls) ! j = ErrReturned e))
       \<and> (calls ! j = CallNext \<and> (finished it \<or> (\<exists>i<j. calls ! i = CallClose)) \<longrightarrow>
            j < length (fst (run it calls)) \<and> fst (run it calls) ! j = NextReturned False)
       \<and> (finished it \<or> (\<exists>i<j. calls ! i = CallClose) \<longrightarrow>
            j < length (fst (run it calls)))"
  using assms
proof (induction calls arbitrary: it j)
  case Nil
  then show ?case by simp
next
  case (Cons c cs)
  show ?case
  proof (cases j)
    case 0
    have "\<exists>r it'. invoke it c = Inr (r, it') \<and> r = CloseReturned None" if "c = CallClose"
      using that invoke_Close [of it] by auto
    moreover have "\<exists>r it'. invoke it c = Inr (r, it') \<and> (\<exists>e. r = ErrReturned e)"
      if "c = CallErr"
      using that invoke_Err [of it] by auto
    moreover have "\<exists>r it'. invoke it c = Inr (r, it') \<and> r = NextReturned False"
      if "c = CallNext" "finished it"
      using that invoke_Next_finished [of it] by auto
    moreover have "\<exists>r it'. invoke it c = Inr (r, it')" if "finished it"
      using that invoke_finished [of it c] by auto
    ultimately show ?thesis
      using 0 by (auto split: prod.splits)
  next
    case (Suc j')
    from Cons.prems Suc obtain r it1 where inv: "invoke it c = Inr (r, it1)"
      by (cases "invoke it c") auto
    then have rs: "fst (run it (c # cs)) = r # fst (run it1 cs)"
      by (simp add: case_prod_beta)
    from Cons.prems Suc rs have j': "j' < length cs" "j' \<le> length (fst (run it1 cs))"
      by simp_all
    note IH = Cons.IH [OF j']
    have after: "finished it1 \<or> (\<exists>i<j'. cs ! i = CallClose)"
      if "finished it \<or> (\<exists>i<j. (c # cs) ! i = CallClose)"
    proof -
      from that consider "finished it" | i where "i < j" "(c # cs) ! i = CallClose"
        by blast
      then show ?thesis
      proof cases
        case 1
        then show ?thesis using finished_kept [OF _ inv] by simp
      next
        case 2
        show ?thesis
        proof (cases i)
          case 0
          with 2 have "c = CallClose" by simp
          then show ?thesis using invoke_Close [of it] inv by auto
        next
          case (Suc i')
          with 2 \<open>j = Suc j'\<close> show ?thesis by auto
        qed
      qed
    qed
    show ?thesis
      unfolding rs using IH after Suc by auto
  qed
qed

text \<open>No call panics while the index has not passed the largest \<open>int\<close>.\<close>

lemma invoke_counted:
  assumes "nexts_done (it :: 'w::len word ObjectIterator) k"
    and "c = CallNext \<longrightarrow> k < 2 ^ (LENGTH('w) - 1)"
  shows "\<exists>r it'. invoke it c = Inr (r, it')
           \<and> nexts_done it' (if c = CallNext then Suc k else k)"
proof (cases c)
  case CallNext
  with assms(2) have k: "sint (of_nat k :: 'w word) = int k"
    by (simp add: sint_of_nat_small)
  show ?thesis
  proof (cases it)
    case (SegmentFiles x)
    with assms(1) CallNext k show ?thesis
      by (auto simp: SegmentFileIterator_Next_def Let_def)
  next
    case (Listing x)
    with assms(1) CallNext k show ?thesis
      by (auto simp: ListingIterator_Next_def Let_def)
  next
    case (Empty x)
    with CallNext show ?thesis
      by (simp add: EmptyIterator_Next_def)
  qed
next
  case CallRef
  with assms(1) invoke_Ref [of it] show ?thesis by auto
next
  case CallErr
  with assms(1) invoke_Err [of it] show ?thesis by auto
next
  case CallClose
  then show ?thesis
    by (cases it)
      (simp_all add: SegmentFileIterator_Close_def ListingIterator_Close_def
        EmptyIterator_Close_def)
qed

lemma run_counted:
  assumes "nexts_done (it :: 'w::len word ObjectIterator) k"
    and "k + count_list calls CallNext \<le> 2 ^ (LENGTH('w) - 1)"
  shows "length (fst (run it calls)) = length calls \<and> (\<exists>it'. snd (run it calls) = Inr it')"
  using assms
proof (induction calls arbitrary: it k)
  case Nil
  show ?case by simp
next
  case (Cons c cs)
  have "c = CallNext \<longrightarrow> k < 2 ^ (LENGTH('w) - 1)"
    using Cons.prems(2) by auto
  from invoke_counted [OF Cons.prems(1) this]
  obtain r it1 where inv: "invoke it c = Inr (r, it1)"
    and done1: "nexts_done it1 (if c = CallNext then Suc k else k)"
    by blast
  have "(if c = CallNext then Suc k else k) + count_list cs CallNext \<le> 2 ^ (LENGTH('w) - 1)"
    using Cons.prems(2) by auto
  from Cons.IH [OF done1 this] show ?case
    by (simp add: inv case_prod_beta)
qed

lemma constructors_nexts_done:
  "nexts_done (SegmentFiles (NewSegmentFileIterator d s fs)) 0"
  "nexts_done (Listing (NewListingIterator d s ks)) 0"
  "nexts_done (Empty NewEmptyIterator) 0"
  by (simp_all add: NewSegmentFileIterator_def NewListingIterator_def)


text \<open>
  C6. For each of the three iterators, however constructed, whatever the width of
  \<open>int\<close>, and for every sequence of calls: every \<open>Next\<close> that is made after a \<open>Close\<close>
  returns false; every \<open>Close\<close> that is made, the first and any repeated one, returns
  nil; and every \<open>Err\<close> that is made, wherever it stands in the sequence, returns. A call
  is made when the calls before it have returned, and they all do when the sequence has
  no more \<open>Next\<close> calls than there are non-negative \<open>int\<close>s.
\<close>

theorem iterator_laws:
  fixes it0 :: "'w::len word ObjectIterator"
  assumes "it0 = SegmentFiles (NewSegmentFileIterator d s fs)
         \<or> it0 = Listing (NewListingIterator d s ks)
         \<or> it0 = Empty NewEmptyIterator"
  shows "(\<forall>j<length calls. j \<le> length (fst (run it0 calls)) \<longrightarrow>
            (calls ! j = CallNext \<and> (\<exists>i<j. calls ! i = CallClose) \<longrightarrow>
               j < length (fst (run it0 calls))
               \<and> fst (run it0 calls) ! j = NextReturned False)
          \<and> (calls ! j = CallClose \<longrightarrow>
               j < length (fst (run it0 calls))
               \<and> fst (run it0 calls) ! j = CloseReturned None)
          \<and> (calls ! j = CallErr \<longrightarrow>
               j < length (fst (run it0 calls))
               \<and> (\<exists>e. fst (run it0 calls) ! j = ErrReturned e)))
       \<and> (count_list calls CallNext \<le> 2 ^ (LENGTH('w) - 1) \<longrightarrow>
            length (fst (run it0 calls)) = length calls
            \<and> (\<exists>it'. snd (run it0 calls) = Inr it'))"
proof -
  have "(calls ! j = CallNext \<and> (\<exists>i<j. calls ! i = CallClose) \<longrightarrow>
           j < length (fst (run it0 calls))
           \<and> fst (run it0 calls) ! j = NextReturned False)
      \<and> (calls ! j = CallClose \<longrightarrow>
           j < length (fst (run it0 calls))
           \<and> fst (run it0 calls) ! j = CloseReturned None)
      \<and> (calls ! j = CallErr \<longrightarrow>
           j < length (fst (run it0 calls))
           \<and> (\<exists>e. fst (run it0 calls) ! j = ErrReturned e))"
    if "j < length calls" "j \<le> length (fst (run it0 calls))" for j
    using run_laws [OF that] by blast
  moreover have "length (fst (run it0 calls)) = length calls
      \<and> (\<exists>it'. snd (run it0 calls) = Inr it')"
    if n: "count_list calls CallNext \<le> 2 ^ (LENGTH('w) - 1)"
  proof -
    from assms have "nexts_done it0 0"
      using constructors_nexts_done by blast
    from run_counted [OF this, of calls] n show ?thesis
      by simp
  qed
  ultimately show ?thesis
    by blast
qed

theorem iterator_laws_witness:
  "length (fst (run (SegmentFiles (NewSegmentFileIterator ''mydata'' \<lparr>ID = ''snap-1''\<rparr>
            [\<lparr>FileRef.Path = ''data/file1.json'', SizeBytes = 100, Checksum = []\<rparr>,
             \<lparr>FileRef.Path = ''data/file2.json'', SizeBytes = 200, Checksum = []\<rparr>]
            :: 64 word SegmentFileIterator))
         [CallNext, CallClose, CallNext, CallClose, CallErr, CallNext])) = 6
   \<and> fst (run (SegmentFiles (NewSegmentFileIterator ''mydata'' \<lparr>ID = ''snap-1''\<rparr>
            [\<lparr>FileRef.Path = ''data/file1.json'', SizeBytes = 100, Checksum = []\<rparr>,
             \<lparr>FileRef.Path = ''data/file2.json'', SizeBytes = 200, Checksum = []\<rparr>]
            :: 64 word SegmentFileIterator))
         [CallNext, CallClose, CallNext, CallClose, CallErr, CallNext])
      = [NextReturned True, CloseReturned None, NextReturned False, CloseReturned None,
         ErrReturned None, NextReturned False]"
proof -
  let ?it0 = "SegmentFiles (NewSegmentFileIterator ''mydata'' \<lparr>ID = ''snap-1''\<rparr>
            [\<lparr>FileRef.Path = ''data/file1.json'', SizeBytes = 100, Checksum = []\<rparr>,
             \<lparr>FileRef.Path = ''data/file2.json'', SizeBytes = 200, Checksum = []\<rparr>]
            :: 64 word SegmentFileIterator)"
  let ?calls = "[CallNext, CallClose, CallNext, CallClose, CallErr, CallNext]"
  let ?rs = "fst (run ?it0 ?calls)"
  note laws = iterator_laws [of ?it0 _ _ _ _ ?calls]
  have "count_list ?calls CallNext \<le> 2 ^ (LENGTH(64) - 1)"
    by simp
  with laws have len: "length ?rs = 6"
    by simp
  have made: "j \<le> length ?rs" if "j < 6" for j
    using that len by simp
  have c: "\<exists>i<j. ?calls ! i = CallClose" if "j = 2 \<or> j = 5" for j
    using that by (intro exI [of _ 1]) auto
  from laws have l: "j < length ?calls \<Longrightarrow> j \<le> length ?rs \<Longrightarrow>
      (?calls ! j = CallNext \<and> (\<exists>i<j. ?calls ! i = CallClose) \<longrightarrow> ?rs ! j = NextReturned False)
      \<and> (?calls ! j = CallClose \<longrightarrow> ?rs ! j = CloseReturned None)
      \<and> (?calls ! j = CallErr \<longrightarrow> (\<exists>e. ?rs ! j = ErrReturned e))" for j
    by blast
  from l [of 2] made [of 2] c [of 2] have n2: "?rs ! 2 = NextReturned False"
    by simp
  from l [of 5] made [of 5] c [of 5] have n5: "?rs ! 5 = NextReturned False"
    by simp
  from l [of 1] made [of 1] have c1: "?rs ! 1 = CloseReturned None"
    by simp
  from l [of 3] made [of 3] have c3: "?rs ! 3 = CloseReturned None"
    by simp
  have all: "?rs = [NextReturned True, CloseReturned None, NextReturned False,
      CloseReturned None, ErrReturned None, NextReturned False]"
    by (simp add: NewSegmentFileIterator_def SegmentFileIterator_Next_def
        SegmentFileIterator_Close_def SegmentFileIterator_Err_def Let_def)
  from len n2 n5 c1 c3 all show ?thesis
    by simp
qed

text \<open>Iterating without closing: the state after each \<open>Next\<close>, up to the wrap.\<close>

lemma after_nexts_0: "after_nexts d s fs 0 = NewSegmentFileIterator d s fs"
  by (simp add: after_nexts_def NewSegmentFileIterator_def)

lemma Next_after_nexts:
  assumes "n < 2 ^ (LENGTH('w::len) - 1)"
  shows "SegmentFileIterator_Next (after_nexts d s fs n :: 'w word SegmentFileIterator)
     = Inr (n < length fs, after_nexts d s fs (Suc n))"
  using sint_of_nat_small [OF assms]
  by (auto simp: SegmentFileIterator_Next_def after_nexts_def Let_def min_def)

lemma Next_after_nexts_wrap:
  "SegmentFileIterator_Next
     (after_nexts d s fs (2 ^ (LENGTH('w::len) - 1)) :: 'w word SegmentFileIterator)
     = Inl IndexOutOfRange"
proof -
  have "sint (of_nat (2 ^ (LENGTH('w) - 1)) :: 'w word) < 0"
    by (simp only: sint_of_nat_wrap) simp
  moreover have "(of_nat (2 ^ (LENGTH('w) - 1)) - 1 :: 'w word) + 1 = of_nat (2 ^ (LENGTH('w) - 1))"
    by (simp only: diff_add_cancel)
  ultimately show ?thesis
    unfolding SegmentFileIterator_Next_def after_nexts_def Let_def
    by (simp del: of_nat_power of_nat_numeral)
qed

lemma run_append:
  "run it (xs @ ys) =
     (case snd (run it xs) of
        Inl p \<Rightarrow> run it xs
      | Inr it' \<Rightarrow> (fst (run it xs) @ fst (run it' ys), snd (run it' ys)))"
proof (induction xs arbitrary: it)
  case Nil
  show ?case by simp
next
  case (Cons c cs)
  show ?case
  proof (cases "invoke it c")
    case (Inl p)
    then show ?thesis by simp
  next
    case (Inr x)
    then show ?thesis
      using Cons [of "snd x"] by (cases x) (simp add: case_prod_beta split: sum.splits)
  qed
qed

lemma run_nexts:
  assumes "k + n \<le> 2 ^ (LENGTH('w::len) - 1)"
  shows "run (SegmentFiles (after_nexts d s fs k :: 'w word SegmentFileIterator))
           (replicate n CallNext)
     = (map (\<lambda>j. NextReturned (j < length fs)) [k..<k + n],
        Inr (SegmentFiles (after_nexts d s fs (k + n))))"
  using assms
proof (induction n arbitrary: k)
  case 0
  show ?case by simp
next
  case (Suc n)
  have "[k..<k + Suc n] = k # [Suc k..<Suc k + n]"
    by (simp add: upt_conv_Cons del: upt_Suc)
  moreover have "k < 2 ^ (LENGTH('w) - 1)" and "Suc k + n \<le> 2 ^ (LENGTH('w) - 1)"
    using Suc.prems by simp_all
  ultimately show ?case
    using Suc.IH [of "Suc k"] by (simp add: Next_after_nexts del: upt_Suc)
qed

text \<open>
  While the index has not wrapped, that is for the first \<open>2 ^ (LENGTH('w) - 1)\<close> calls of
  \<open>Next\<close>, the iterator yields every file once and in slice order.
\<close>

lemma SegmentFileIterator_yields_files_in_order_before_wrap:
  fixes d :: DatasetID and s :: SegmentRef and fs :: "FileRef list"
  defines "it0 \<equiv> SegmentFiles (NewSegmentFileIterator d s fs :: 'w::len word SegmentFileIterator)"
  shows "n \<le> 2 ^ (LENGTH('w) - 1) \<Longrightarrow>
      \<exists>it'. run it0 (replicate n CallNext)
        = (map (\<lambda>j. NextReturned (j < length fs)) [0..<n], Inr it')"
    and "1 \<le> i \<Longrightarrow> i \<le> length fs \<Longrightarrow> i \<le> 2 ^ (LENGTH('w) - 1) \<Longrightarrow>
      \<exists>it'. run it0 (replicate i CallNext @ [CallRef])
        = (replicate i (NextReturned True) @
             [RefReturned \<lparr>Dataset = d, Segment = s, Path = FileRef.Path (fs ! (i - 1))\<rparr>],
           Inr it')"
proof -
  show "\<exists>it'. run it0 (replicate n CallNext)
        = (map (\<lambda>j. NextReturned (j < length fs)) [0..<n], Inr it')"
    if "n \<le> 2 ^ (LENGTH('w) - 1)"
    using run_nexts [of 0 n d s fs, where 'w = 'w] that by (simp add: it0_def after_nexts_0)
  show "\<exists>it'. run it0 (replicate i CallNext @ [CallRef])
        = (replicate i (NextReturned True) @
             [RefReturned \<lparr>Dataset = d, Segment = s, Path = FileRef.Path (fs ! (i - 1))\<rparr>],
           Inr it')"
    if i: "1 \<le> i" "i \<le> length fs" "i \<le> 2 ^ (LENGTH('w) - 1)"
  proof -
    have "map (\<lambda>j. NextReturned (j < length fs)) [0..<i] = replicate i (NextReturned True)"
      using i by (intro nth_equalityI) simp_all
    moreover have "SegmentFileIterator_Ref (after_nexts d s fs i :: 'w word SegmentFileIterator)
        = \<lparr>Dataset = d, Segment = s, Path = FileRef.Path (fs ! (i - 1))\<rparr>"
      using i by (auto simp: SegmentFileIterator_Ref_def after_nexts_def min_def)
    ultimately show ?thesis
      using run_nexts [of 0 i d s fs, where 'w = 'w] i
      by (simp add: run_append it0_def after_nexts_0)
  qed
qed

text \<open>The call of \<open>Next\<close> after those: the index wraps to the smallest \<open>int\<close>.\<close>

lemma run_nexts_wrap:
  "run (SegmentFiles (NewSegmentFileIterator d s fs :: 'w::len word SegmentFileIterator))
       (replicate (2 ^ (LENGTH('w) - 1)) CallNext @ [CallNext])
     = (map (\<lambda>j. NextReturned (j < length fs)) [0..<2 ^ (LENGTH('w) - 1)],
        Inl IndexOutOfRange)"
proof -
  let ?N = "2 ^ (LENGTH('w) - 1) :: nat"
  let ?it0 = "SegmentFiles (NewSegmentFileIterator d s fs :: 'w word SegmentFileIterator)"
  let ?itN = "SegmentFiles (after_nexts d s fs ?N :: 'w word SegmentFileIterator)"
  have a: "run ?it0 (replicate ?N CallNext)
      = (map (\<lambda>j. NextReturned (j < length fs)) [0..<?N], Inr ?itN)"
    using run_nexts [of 0 ?N d s fs, where 'w = 'w] by (simp add: after_nexts_0)
  have "invoke ?itN CallNext = Inl IndexOutOfRange"
    by (simp only: invoke.simps Next_after_nexts_wrap sum.case)
  then have b: "run ?itN [CallNext] = ([], Inl IndexOutOfRange)"
    by (rule run_Cons_Inl)
  show ?thesis
    by (simp only: run_append a b snd_conv fst_conv sum.case append_Nil2)
qed

lemma run_nexts_wrap_no_files:
  "run (SegmentFiles (NewSegmentFileIterator d s [] :: 'w::len word SegmentFileIterator))
       (replicate (2 ^ (LENGTH('w) - 1)) CallNext @ [CallNext])
     = (replicate (2 ^ (LENGTH('w) - 1)) (NextReturned False), Inl IndexOutOfRange)"
proof -
  have "map (\<lambda>j. NextReturned (j < length ([] :: FileRef list))) [0..<n]
      = replicate n (NextReturned False)" for n
    by (simp add: map_replicate_const)
  then show ?thesis
    using run_nexts_wrap [of d s "[]", where 'w = 'w] by (simp only:)
qed

text \<open>
  C9. The claim: a \<open>SegmentFileIterator\<close> that is never closed returns true from exactly
  \<open>len(files)\<close> successive \<open>Next\<close> calls and false from every call thereafter. \<open>Next\<close>
  goes on incrementing \<open>index\<close> after the files are exhausted, so the index wraps: on an
  iterator over no files, the first \<open>2^31\<close> calls (with a 32-bit \<open>int\<close>; \<open>2^63\<close> with a
  64-bit one) return false and the call after them panics on \<open>it.files[it.index]\<close>.
\<close>

theorem Next_panics_after_index_wraps:
  "run (SegmentFiles (NewSegmentFileIterator ''mydata'' \<lparr>ID = ''snap-1''\<rparr> []
          :: 32 word SegmentFileIterator))
       (replicate (2 ^ 31) CallNext @ [CallNext])
     = (replicate (2 ^ 31) (NextReturned False), Inl IndexOutOfRange)
   \<and> run (SegmentFiles (NewSegmentFileIterator ''mydata'' \<lparr>ID = ''snap-1''\<rparr> []
          :: 64 word SegmentFileIterator))
       (replicate (2 ^ 63) CallNext @ [CallNext])
     = (replicate (2 ^ 63) (NextReturned False), Inl IndexOutOfRange)"
proof -
  have w: "LENGTH(32) - 1 = 31" "LENGTH(64) - 1 = 63"
    by simp_all
  show ?thesis
    using run_nexts_wrap_no_files [where 'w = 32, unfolded w]
      run_nexts_wrap_no_files [where 'w = 64, unfolded w]
    by (rule conjI)
qed

section \<open>StoreAdapter\<close>

text \<open>
  C8. When the store given to \<open>NewStoreAdapter\<close> does not implement \<open>RangeReadStore\<close>,
  \<open>ReadRange\<close> and \<open>ReaderAt\<close> return \<open>ErrRangeReadNotSupported\<close> for every key, offset and
  length without calling the store at all (no download stands in for the range read),
  and \<open>SupportsRangeReads\<close> returns false.
\<close>

theorem range_reads_not_simulated:
  assumes "range_methods st = None"
  shows "ReadRange (NewStoreAdapter st) key offset len = (Inl ErrRangeReadNotSupported, [])
     \<and> ReaderAt (NewStoreAdapter st) key = (Inl ErrRangeReadNotSupported, [])
     \<and> \<not> SupportsRangeReads (NewStoreAdapter st)"
  using assms
  by (simp add: ReadRange_def ReaderAt_def SupportsRangeReads_def NewStoreAdapter_def)

text \<open>
  A store holding one object and no range methods; a range read on the object's own key
  is refused, and the store's \<open>Get\<close>, which would succeed, is not called.
\<close>

theorem range_reads_not_simulated_witness:
  "store_Get \<lparr>store_Get = (\<lambda>k. if k = ''obj'' then Inr [1, 2, 3] else Inl (StoreError ''not found'')),
               store_List = (\<lambda>p. Inr [''obj'']), range_methods = None\<rparr> ''obj'' = Inr [1, 2, 3]
   \<and> ReadRange (NewStoreAdapter
        \<lparr>store_Get = (\<lambda>k. if k = ''obj'' then Inr [1, 2, 3] else Inl (StoreError ''not found'')),
         store_List = (\<lambda>p. Inr [''obj'']), range_methods = None\<rparr>) ''obj'' 0 2
      = (Inl ErrRangeReadNotSupported, [])
   \<and> ReaderAt (NewStoreAdapter
        \<lparr>store_Get = (\<lambda>k. if k = ''obj'' then Inr [1, 2, 3] else Inl (StoreError ''not found'')),
         store_List = (\<lambda>p. Inr [''obj'']), range_methods = None\<rparr>) ''obj''
      = (Inl ErrRangeReadNotSupported, [])
   \<and> \<not> SupportsRangeReads (NewStoreAdapter
        \<lparr>store_Get = (\<lambda>k. if k = ''obj'' then Inr [1, 2, 3] else Inl (StoreError ''not found'')),
         store_List = (\<lambda>p. Inr [''obj'']), range_methods = None\<rparr>)"
proof -
  let ?st = "\<lparr>store_Get = (\<lambda>k. if k = ''obj'' then Inr [1, 2, 3 :: byte]
                               else Inl (StoreError ''not found'')),
              store_List = (\<lambda>p. Inr [''obj'']), range_methods = None\<rparr>"
  have "range_methods ?st = None" by simp
  from range_reads_not_simulated [OF this, of "''obj''" 0 2] show ?thesis
    by simp
qed

text \<open>
  C10. \<open>List\<close> asks the store once for the listing under the prefix. When the limit is
  positive and the listing has more keys than the limit, it returns exactly the first
  \<open>Limit\<close> keys with \<open>HasMore\<close> true; in every other case all keys of the listing with
  \<open>HasMore\<close> false. (When the store's \<open>List\<close> fails there is no listing, and the error is
  returned.)
\<close>

theorem List_applies_limit:
  "(store_List st prefix = Inr paths \<longrightarrow>
      List (NewStoreAdapter st) prefix opts =
        (if 0 < Limit opts \<and> Limit opts < int (length paths)
         then (Inr \<lparr>Keys = take (nat (Limit opts)) paths, HasMore = True\<rparr>, [List_called prefix])
         else (Inr \<lparr>Keys = paths, HasMore = False\<rparr>, [List_called prefix]))
      \<and> (0 < Limit opts \<and> Limit opts < int (length paths) \<longrightarrow>
           int (length (take (nat (Limit opts)) paths)) = Limit opts))
   \<and> (store_List st prefix = Inl e \<longrightarrow>
        List (NewStoreAdapter st) prefix opts = (Inl e, [List_called prefix]))"
  by (auto simp: List_def NewStoreAdapter_def Let_def split: option.splits)

theorem List_applies_limit_witness:
  "List (NewStoreAdapter \<lparr>store_Get = (\<lambda>k. Inl (StoreError ''not found'')),
                          store_List = (\<lambda>p. Inr [''p/a'', ''p/b'', ''p/c'']),
                          range_methods = None\<rparr>) ''p/'' \<lparr>Limit = 2\<rparr>
     = (Inr \<lparr>Keys = [''p/a'', ''p/b''], HasMore = True\<rparr>, [List_called ''p/''])
   \<and> List (NewStoreAdapter \<lparr>store_Get = (\<lambda>k. Inl (StoreError ''not found'')),
                          store_List = (\<lambda>p. Inr [''p/a'', ''p/b'', ''p/c'']),
                          range_methods = None\<rparr>) ''p/'' \<lparr>Limit = 3\<rparr>
     = (Inr \<lparr>Keys = [''p/a'', ''p/b'', ''p/c''], HasMore = False\<rparr>, [List_called ''p/''])
   \<and> List (NewStoreAdapter \<lparr>store_Get = (\<lambda>k. Inl (StoreError ''not found'')),
                          store_List = (\<lambda>p. Inr [''p/a'', ''p/b'', ''p/c'']),
                          range_methods = None\<rparr>) ''p/'' \<lparr>Limit = 0\<rparr>
     = (Inr \<lparr>Keys = [''p/a'', ''p/b'', ''p/c''], HasMore = False\<rparr>, [List_called ''p/''])
   \<and> List (NewStoreAdapter \<lparr>store_Get = (\<lambda>k. Inl (StoreError ''not found'')),
                          store_List = (\<lambda>p. Inl (StoreError ''unreachable'')),
                          range_methods = None\<rparr>) ''p/'' \<lparr>Limit = 2\<rparr>
     = (Inl (StoreError ''unreachable''), [List_called ''p/''])"
proof -
  let ?st = "\<lparr>store_Get = (\<lambda>k. Inl (StoreError ''not found'')),
              store_List = (\<lambda>p. Inr [''p/a'', ''p/b'', ''p/c'']),
              range_methods = None\<rparr>"
  let ?down = "\<lparr>store_Get = (\<lambda>k. Inl (StoreError ''not found'')),
              store_List = (\<lambda>p. Inl (StoreError ''unreachable'')),
              range_methods = None\<rparr>"
  have l: "store_List ?st ''p/'' = Inr [''p/a'', ''p/b'', ''p/c'']"
    and d: "store_List ?down ''p/'' = Inl (StoreError ''unreachable'')"
    by simp_all
  note lim = List_applies_limit [of ?st "''p/''" "[''p/a'', ''p/b'', ''p/c'']",
      THEN conjunct1, rule_format, OF l, THEN conjunct1]
  note fail = List_applies_limit [of ?down "''p/''" _ _ "StoreError ''unreachable''",
      THEN conjunct2, rule_format, OF d]
  from lim [of "\<lparr>Limit = 2\<rparr>"] lim [of "\<lparr>Limit = 3\<rparr>"] lim [of "\<lparr>Limit = 0\<rparr>"]
    fail [of "\<lparr>Limit = 2\<rparr>"]
  show ?thesis
    by (simp add: numeral_2_eq_2)
qed

section \<open>MD5 checksum\<close>

lemma length_le_bytes: "length (le_bytes k w) = k"
  by (simp add: le_bytes_def)

lemma length_md5_Sum: "length (md5_Sum msg) = 16"
  by (simp add: md5_Sum_def length_le_bytes split: prod.splits)

lemma high_nibble: "unat (drop_bit 4 (v :: byte)) < 16"
proof -
  have "unat v < 256" using unsigned_less [of v] by simp
  then show ?thesis by (simp add: drop_bit_eq_div unat_div)
qed

lemma low_nibble: "unat ((v :: byte) AND 0x0f) < 16"
proof -
  have "unat (v AND 0x0f) \<le> unat (0x0f :: byte)"
    by (rule word_and_le1 [THEN word_le_nat_alt [THEN iffD1]])
  then show ?thesis by simp
qed

lemma length_hex: "length (hex_EncodeToString src) = 2 * length src"
  by (induction src) (simp_all add: hex_EncodeToString_def)

lemma set_hex: "set (hex_EncodeToString src) \<subseteq> set hextable"
proof -
  have "length hextable = 16" by (simp add: hextable_def)
  then have "hextable ! unat (drop_bit 4 v) \<in> set hextable"
    and "hextable ! unat (v AND 0x0f) \<in> set hextable" for v :: byte
    using high_nibble [of v] low_nibble [of v] by (simp_all only: nth_mem)
  then show ?thesis
    by (auto simp: hex_EncodeToString_def)
qed

lemma h_foldl_Write:
  "h (foldl (\<lambda>hw p. snd (hashWriter_Write hw p)) hw ps) = h hw @ concat ps"
  by (induction ps arbitrary: hw) (simp_all add: hashWriter_Write_def)

lemma h_written: "h (written ps) = concat ps"
  by (simp add: written_def h_foldl_Write NewHasher_def)

text \<open>
  C4, as the code has it. \<open>Name\<close> is \<open>md5\<close>, and \<open>Sum\<close> of a hasher made by \<open>NewHasher\<close>
  returns, after any writes, the lowercase hex encoding of the MD5 digest of all bytes
  written so far: 32 hex digits and nothing else, so never the name and a colon before
  them.
\<close>

theorem Sum_is_plain_hex_digest:
  "Name = ''md5''
   \<and> hashWriter_Sum (written ps) = hex_EncodeToString (md5_Sum (concat ps))
   \<and> length (hashWriter_Sum (written ps)) = 32
   \<and> set (hashWriter_Sum (written ps)) \<subseteq> set ''0123456789abcdef''
   \<and> hashWriter_Sum (written ps) \<noteq> Name @ '':'' @ hex_EncodeToString (md5_Sum (concat ps))"
proof -
  have s: "hashWriter_Sum (written ps) = hex_EncodeToString (md5_Sum (concat ps))"
    by (simp add: hashWriter_Sum_def h_written)
  have l: "length (hashWriter_Sum (written ps)) = 32"
    by (simp add: s length_hex length_md5_Sum)
  have c: "set (hashWriter_Sum (written ps)) \<subseteq> set ''0123456789abcdef''"
    using set_hex [of "md5_Sum (concat ps)"] by (simp only: s hextable_def)
  have "length (Name @ '':'' @ hex_EncodeToString (md5_Sum (concat ps))) = 36"
    by (simp add: Name_def length_hex length_md5_Sum)
  with l have "length (hashWriter_Sum (written ps))
      \<noteq> length (Name @ '':'' @ hex_EncodeToString (md5_Sum (concat ps)))"
    by simp
  then have "hashWriter_Sum (written ps)
      \<noteq> Name @ '':'' @ hex_EncodeToString (md5_Sum (concat ps))"
    by auto
  with s l c show ?thesis
    by (simp only: Name_def simp_thms)
qed

text \<open>
  C4, as the claim states it, fails on a hasher nothing was written to: \<open>Sum\<close> returns
  \<open>d41d8cd98f00b204e9800998ecf8427e\<close>, the digest of the empty input in hex, where the
  claim has \<open>md5:d41d8cd98f00b204e9800998ecf8427e\<close>.
\<close>

theorem Sum_has_no_algorithm_prefix:
  "hashWriter_Sum NewHasher = ''d41d8cd98f00b204e9800998ecf8427e''
   \<and> Name @ '':'' @ hex_EncodeToString (md5_Sum []) = ''md5:d41d8cd98f00b204e9800998ecf8427e''
   \<and> hashWriter_Sum NewHasher \<noteq> Name @ '':'' @ hex_EncodeToString (md5_Sum [])"
proof -
  have d: "hex_EncodeToString (md5_Sum []) = ''d41d8cd98f00b204e9800998ecf8427e''"
    by code_simp
  have "hashWriter_Sum NewHasher = hex_EncodeToString (md5_Sum [])"
    by (simp add: hashWriter_Sum_def NewHasher_def)
  then show ?thesis
    by (simp add: d Name_def)
qed

end
